theory Spec2Isabelle
  imports Main
begin

section \<open>generateCsv.py: a generator of synthetic person records\<close>

text \<open>
  The script opens \<^verbatim>\<open>test_large.csv\<close> for writing, draws six random integers per
  iteration, formats them as six text fields, hands the row to a \<^verbatim>\<open>csv.writer\<close> with
  delimiter \<^verbatim>\<open>;\<close>, and prints a completion message after the \<^verbatim>\<open>with\<close> block.
  Python integers are \<open>int\<close>, Python strings are \<open>string\<close>; every exception the
  script can meet is a value of \<open>py_error\<close> (\<^verbatim>\<open>UnicodeEncodeError\<close>, a subclass of
  \<^verbatim>\<open>ValueError\<close> in Python, is kept apart from it).
  The script is a few calls into the standard library (\<^verbatim>\<open>random\<close>, \<^verbatim>\<open>datetime\<close>, \<^verbatim>\<open>csv\<close>,
  \<^verbatim>\<open>open\<close>, \<^verbatim>\<open>print\<close>); each call is modelled by what the library does on the
  arguments the script can pass, with the library's own algorithm where a result
  depends on it (the conversion between dates and ordinals).
\<close>

datatype py_error = ValueError | OverflowError | OSError | UnicodeEncodeError

subsection \<open>Decimal rendering: \<^verbatim>\<open>str(int)\<close> inside an f-string\<close>

definition digit_chars :: string where
  "digit_chars = ''0123456789''"

definition digit_char :: "nat \<Rightarrow> char" where
  "digit_char d = digit_chars ! (d mod 10)"

definition is_digit :: "char \<Rightarrow> bool" where
  "is_digit c = (c \<in> set digit_chars)"

fun str_nat :: "nat \<Rightarrow> string" where
  "str_nat n = (if n < 10 then [digit_char n] else str_nat (n div 10) @ [digit_char n])"

declare str_nat.simps [simp del]

definition py_str :: "int \<Rightarrow> string" where
  "py_str n = (if n < 0 then CHR ''-'' # str_nat (nat (- n)) else str_nat (nat n))"

text \<open>Reading a run of decimal digits back, as \<^verbatim>\<open>int(s)\<close> does on digits.\<close>

definition digit_val :: "char \<Rightarrow> nat" where
  "digit_val c = of_char c - 48"

definition parse_nat :: "string \<Rightarrow> nat" where
  "parse_nat s = foldl (\<lambda>acc c. 10 * acc + digit_val c) 0 s"

subsection \<open>The proleptic Gregorian calendar of \<^verbatim>\<open>datetime\<close>\<close>

text \<open>
  \<^verbatim>\<open>datetime(2000,1,1) + timedelta(days=k)\<close> converts the date to its ordinal, adds the
  days, and converts back. The helper functions are those of the standard library
  (\<^verbatim>\<open>_is_leap\<close>, \<^verbatim>\<open>_days_before_year\<close>, \<^verbatim>\<open>_days_in_month\<close>, \<^verbatim>\<open>_days_before_month\<close>,
  \<^verbatim>\<open>_ymd2ord\<close>, \<^verbatim>\<open>_ord2ymd\<close>). The script only builds datetimes at midnight and
  offsets of whole days, so the time of day stays 00:00:00 and a datetime is modelled by
  its calendar date.
\<close>

record datetime =
  year :: int
  month :: int
  day :: int

definition is_leap :: "int \<Rightarrow> bool" where
  "is_leap y = (y mod 4 = 0 \<and> (y mod 100 \<noteq> 0 \<or> y mod 400 = 0))"

definition days_before_year :: "int \<Rightarrow> int" where
  "days_before_year yr = (let y = yr - 1 in y * 365 + y div 4 - y div 100 + y div 400)"

definition DAYS_IN_MONTH :: "int list" where
  "DAYS_IN_MONTH = [-1, 31, 28, 31, 30, 31, 30, 31, 31, 30, 31, 30, 31]"

definition DAYS_BEFORE_MONTH :: "int list" where
  "DAYS_BEFORE_MONTH = [-1, 0, 31, 59, 90, 120, 151, 181, 212, 243, 273, 304, 334]"

definition days_in_month :: "int \<Rightarrow> int \<Rightarrow> int" where
  "days_in_month y m = (if m = 2 \<and> is_leap y then 29 else DAYS_IN_MONTH ! nat m)"

definition days_before_month :: "int \<Rightarrow> int \<Rightarrow> int" where
  "days_before_month y m = DAYS_BEFORE_MONTH ! nat m + (if m > 2 \<and> is_leap y then 1 else 0)"

definition ymd2ord :: "int \<Rightarrow> int \<Rightarrow> int \<Rightarrow> int" where
  "ymd2ord y m d = days_before_year y + days_before_month y m + d"

definition DI400Y :: int where "DI400Y = days_before_year 401"
definition DI100Y :: int where "DI100Y = days_before_year 101"
definition DI4Y :: int where "DI4Y = days_before_year 5"

definition ord2ymd :: "int \<Rightarrow> int \<times> int \<times> int" where
  "ord2ymd n0 =
    (let n = n0 - 1;
         n400 = n div DI400Y; n = n mod DI400Y;
         yr = n400 * 400 + 1;
         n100 = n div DI100Y; n = n mod DI100Y;
         n4 = n div DI4Y; n = n mod DI4Y;
         n1 = n div 365; n = n mod 365;
         yr = yr + n100 * 100 + n4 * 4 + n1
     in if n1 = 4 \<or> n100 = 4 then (yr - 1, 12, 31)
        else
          let leapyear = (n1 = 3 \<and> (n4 \<noteq> 24 \<or> n100 = 3));
              mth = (n + 50) div 32;
              preceding = DAYS_BEFORE_MONTH ! nat mth + (if mth > 2 \<and> leapyear then 1 else 0)
          in if preceding > n
             then let mth = mth - 1;
                      preceding = preceding
                        - (DAYS_IN_MONTH ! nat mth + (if mth = 2 \<and> leapyear then 1 else 0))
                  in (yr, mth, n - preceding + 1)
             else (yr, mth, n - preceding + 1))"

definition MAXORDINAL :: int where
  "MAXORDINAL = 3652059"

text \<open>The constructor checks its fields (\<^verbatim>\<open>_check_date_fields\<close>).\<close>

definition datetime_new :: "int \<Rightarrow> int \<Rightarrow> int \<Rightarrow> py_error + datetime" where
  "datetime_new y m d =
    (if \<not> (1 \<le> y \<and> y \<le> 9999) then Inl ValueError
     else if \<not> (1 \<le> m \<and> m \<le> 12) then Inl ValueError
     else if \<not> (1 \<le> d \<and> d \<le> days_in_month y m) then Inl ValueError
     else Inr \<lparr>year = y, month = m, day = d\<rparr>)"

text \<open>\<^verbatim>\<open>timedelta(days=k)\<close>: the number of days, refused beyond 999999999 in magnitude.\<close>

definition timedelta_days :: "int \<Rightarrow> py_error + int" where
  "timedelta_days k = (if \<bar>k\<bar> > 999999999 then Inl OverflowError else Inr k)"

definition toordinal :: "datetime \<Rightarrow> int" where
  "toordinal dt = ymd2ord (year dt) (month dt) (day dt)"

definition datetime_add :: "datetime \<Rightarrow> int \<Rightarrow> py_error + datetime" where
  "datetime_add dt delta_days =
    (let days = toordinal dt + delta_days
     in if 0 < days \<and> days \<le> MAXORDINAL
        then (case ord2ymd days of (y, m, d) \<Rightarrow> Inr \<lparr>year = y, month = m, day = d\<rparr>)
        else Inl OverflowError)"

text \<open>\<^verbatim>\<open>strftime("%Y-%m-%d")\<close>: year in four digits, month and day in two, zero padded.\<close>

definition zfill :: "nat \<Rightarrow> string \<Rightarrow> string" where
  "zfill w s = replicate (w - length s) CHR ''0'' @ s"

definition strftime_ymd :: "datetime \<Rightarrow> string" where
  "strftime_ymd dt =
     zfill 4 (py_str (year dt)) @ ''-'' @ zfill 2 (py_str (month dt)) @ ''-''
       @ zfill 2 (py_str (day dt))"

text \<open>
  Datetimes compare as the tuples of their fields. \<open>valid_date\<close> is what
  \<^verbatim>\<open>_check_date_fields\<close> accepts.
\<close>

definition date_le :: "datetime \<Rightarrow> datetime \<Rightarrow> bool" where
  "date_le a b =
     (year a < year b \<or> (year a = year b \<and>
        (month a < month b \<or> (month a = month b \<and> day a \<le> day b))))"

definition valid_date :: "datetime \<Rightarrow> bool" where
  "valid_date dt =
     (1 \<le> year dt \<and> year dt \<le> 9999 \<and> 1 \<le> month dt \<and> month dt \<le> 12 \<and>
      1 \<le> day dt \<and> day dt \<le> days_in_month (year dt) (month dt))"

subsection \<open>The random source\<close>

text \<open>
  \<^verbatim>\<open>random.randint(a, b)\<close> reads and advances the state of the process-wide generator.
  The generator is a parameter: a function from the bounds and the state to the drawn
  integer and the next state. \<^verbatim>\<open>randint\<close> raises \<^verbatim>\<open>ValueError\<close> on an empty range.
  What the library promises of a draw is \<open>randint_contract\<close>: the value lies in the
  closed range.
\<close>

type_synonym 's randint_impl = "int \<Rightarrow> int \<Rightarrow> 's \<Rightarrow> int \<times> 's"

definition randint :: "'s randint_impl \<Rightarrow> int \<Rightarrow> int \<Rightarrow> 's
    \<Rightarrow> py_error + (int \<times> 's)" where
  "randint R a b s = (if b < a then Inl ValueError else Inr (R a b s))"

definition randint_contract :: "'s randint_impl \<Rightarrow> bool" where
  "randint_contract R = (\<forall>a b s. a \<le> b \<longrightarrow> a \<le> fst (R a b s) \<and> fst (R a b s) \<le> b)"

subsection \<open>One record: lines 8 to 14 of the script, up to the row handed to the writer\<close>

definition generate_row :: "'s randint_impl \<Rightarrow> 's \<Rightarrow> py_error + (string list \<times> 's)" where
  "generate_row R s0 =
    (case datetime_new 2000 1 1 of Inl e \<Rightarrow> Inl e | Inr epoch \<Rightarrow>
     case randint R 0 8000 s0 of Inl e \<Rightarrow> Inl e | Inr (k, s1) \<Rightarrow>
     case timedelta_days k of Inl e \<Rightarrow> Inl e | Inr delta \<Rightarrow>
     case datetime_add epoch delta of Inl e \<Rightarrow> Inl e | Inr date \<Rightarrow>
     case randint R 1 1000000 s1 of Inl e \<Rightarrow> Inl e | Inr (n1, s2) \<Rightarrow>
     let first = ''Name'' @ py_str n1 in
     case randint R 1 1000000 s2 of Inl e \<Rightarrow> Inl e | Inr (n2, s3) \<Rightarrow>
     let last = ''Surname'' @ py_str n2 in
     case randint R 1 1000000 s3 of Inl e \<Rightarrow> Inl e | Inr (n3, s4) \<Rightarrow>
     let sur = ''Patronymic'' @ py_str n3 in
     case randint R 1 1000 s4 of Inl e \<Rightarrow> Inl e | Inr (n4, s5) \<Rightarrow>
     let city = ''City'' @ py_str n4 in
     case randint R 1 100 s5 of Inl e \<Rightarrow> Inl e | Inr (n5, s6) \<Rightarrow>
     let country = ''Country'' @ py_str n5 in
     Inr ([strftime_ymd date, first, last, sur, city, country], s6))"

subsection \<open>The csv writer\<close>

text \<open>
  \<^verbatim>\<open>csv.writer(f, delimiter=';')\<close> uses the \<^verbatim>\<open>excel\<close> dialect with the delimiter replaced:
  quote character \<^verbatim>\<open>"\<close>, minimal quoting, quotes doubled, line terminator CR LF. A field
  is quoted when it holds the delimiter, the quote character or a character of the line
  terminator; a row made of one empty field is written as a pair of quotes.
\<close>

definition CR :: char where "CR = CHR 0x0D"
definition LF :: char where "LF = CHR 0x0A"

record dialect =
  delimiter :: char
  quotechar :: char
  lineterminator :: string

definition excel :: dialect where
  "excel = \<lparr>delimiter = CHR '','', quotechar = CHR 0x22, lineterminator = [CR, LF]\<rparr>"

definition special_char :: "dialect \<Rightarrow> char \<Rightarrow> bool" where
  "special_char dl c =
     (c = delimiter dl \<or> c = quotechar dl \<or> c \<in> set (lineterminator dl))"

definition quote_field :: "dialect \<Rightarrow> string \<Rightarrow> string" where
  "quote_field dl s =
     (if list_ex (special_char dl) s
      then [quotechar dl]
           @ concat (map (\<lambda>c. if c = quotechar dl then [c, c] else [c]) s)
           @ [quotechar dl]
      else s)"

fun join :: "string \<Rightarrow> string list \<Rightarrow> string" where
  "join sep [] = []"
| "join sep [x] = x"
| "join sep (x # y # ys) = x @ sep @ join sep (y # ys)"

definition row_text :: "dialect \<Rightarrow> string list \<Rightarrow> string" where
  "row_text dl row =
     (if row = [ [] ] then [quotechar dl, quotechar dl]
      else join [delimiter dl] (map (quote_field dl) row))
     @ lineterminator dl"

subsection \<open>Files, standard output and the platform\<close>

text \<open>
  The file system maps a path to the text stored there. The environment says which
  line separator the platform has and which I/O calls fail: opening, the k-th write on
  the open file, closing. \<^verbatim>\<open>open(path, 'w', newline=...)\<close> truncates or creates the file;
  on output a text file translates each LF as its \<^verbatim>\<open>newline\<close> argument says.
  All text the script writes to the file is ASCII, which UTF-8 encodes byte for byte.

  Standard output belongs to the environment too. The process may have none
  (\<^verbatim>\<open>sys.stdout\<close> is \<^verbatim>\<open>None\<close> when the descriptor is closed at start): \<^verbatim>\<open>print\<close> then does
  nothing and returns. Otherwise \<^verbatim>\<open>print\<close> encodes the message with the encoding of
  standard output, which raises \<^verbatim>\<open>UnicodeEncodeError\<close> when the encoding cannot
  represent it (the message of the script is Cyrillic; its characters are kept here as
  their UTF-8 bytes, so it is not ASCII), and writes it, which raises \<^verbatim>\<open>OSError\<close> when
  the write fails (in \<^verbatim>\<open>print\<close> on a line-buffered stream, at the flush on exit
  otherwise: either way the process does not end successfully and the message does not
  arrive). The field \<open>stdout\<close> of the state is what has arrived on standard output.
\<close>

datatype newline_arg = NewlineNone | Newline string

definition translate_newlines :: "newline_arg \<Rightarrow> string \<Rightarrow> string \<Rightarrow> string" where
  "translate_newlines nl sep text =
     (case nl of
        NewlineNone \<Rightarrow> concat (map (\<lambda>c. if c = LF then sep else [c]) text)
      | Newline s \<Rightarrow>
          if s = [] \<or> s = [LF] then text
          else concat (map (\<lambda>c. if c = LF then s else [c]) text))"

record env =
  linesep :: string
  open_fails :: bool
  write_fails :: "nat \<Rightarrow> bool"
  close_fails :: bool
  stdout_present :: bool
  stdout_encodable :: "string \<Rightarrow> bool"
  stdout_write_fails :: bool

record 's state =
  rng :: 's
  files :: "string \<rightharpoonup> string"
  stdout :: "string list"

record textfile =
  fpath :: string
  fnewline :: newline_arg
  fwrites :: nat

record csv_writer =
  wfile :: textfile
  wdialect :: dialect

definition open_w :: "env \<Rightarrow> string \<Rightarrow> newline_arg \<Rightarrow> 's state
    \<Rightarrow> py_error + (textfile \<times> 's state)" where
  "open_w ev path nl st =
     (if open_fails ev then Inl OSError
      else Inr (\<lparr>fpath = path, fnewline = nl, fwrites = 0\<rparr>,
                st\<lparr>files := (files st)(path \<mapsto> [])\<rparr>))"

definition file_write :: "env \<Rightarrow> textfile \<Rightarrow> string \<Rightarrow> 's state
    \<Rightarrow> py_error option \<times> textfile \<times> 's state" where
  "file_write ev f text st =
     (if write_fails ev (fwrites f) then (Some OSError, f, st)
      else (None, f\<lparr>fwrites := Suc (fwrites f)\<rparr>,
            st\<lparr>files := (files st)(fpath f \<mapsto>
                  (case files st (fpath f) of None \<Rightarrow> [] | Some old \<Rightarrow> old)
                  @ translate_newlines (fnewline f) (linesep ev) text)\<rparr>))"

definition writerow :: "env \<Rightarrow> csv_writer \<Rightarrow> string list \<Rightarrow> 's state
    \<Rightarrow> py_error option \<times> csv_writer \<times> 's state" where
  "writerow ev w row st =
     (case file_write ev (wfile w) (row_text (wdialect w) row) st of
        (r, f, st') \<Rightarrow> (r, w\<lparr>wfile := f\<rparr>, st'))"

definition print :: "env \<Rightarrow> string \<Rightarrow> 's state \<Rightarrow> py_error option \<times> 's state" where
  "print ev msg st =
     (if \<not> stdout_present ev then (None, st)
      else if \<not> stdout_encodable ev msg then (Some UnicodeEncodeError, st)
      else if stdout_write_fails ev then (Some OSError, st)
      else (None, st\<lparr>stdout := stdout st @ [msg]\<rparr>))"

subsection \<open>The script\<close>

text \<open>
  The body of the \<^verbatim>\<open>for\<close> loop takes the loop variable \<open>i\<close>, as the source does. An
  exception leaves the loop at once; the \<^verbatim>\<open>with\<close> statement then closes the file and
  the exception ends the process before \<^verbatim>\<open>print\<close> is reached. The call of \<^verbatim>\<open>print\<close> is
  the last statement, so its outcome is the outcome of the run. The path and the record
  count are literals in the script (\<open>main\<close>); \<open>run\<close> takes them as parameters.
\<close>

definition loop_body :: "env \<Rightarrow> 's randint_impl \<Rightarrow> nat \<Rightarrow> csv_writer \<times> 's state
    \<Rightarrow> py_error option \<times> csv_writer \<times> 's state" where
  "loop_body ev R i ws =
     (case ws of (w, st) \<Rightarrow>
        (case generate_row R (rng st) of
           Inl e \<Rightarrow> (Some e, w, st)
         | Inr (row, s') \<Rightarrow> writerow ev w row (st\<lparr>rng := s'\<rparr>)))"

fun for_loop :: "env \<Rightarrow> 's randint_impl \<Rightarrow> nat list \<Rightarrow> csv_writer \<times> 's state
    \<Rightarrow> py_error option \<times> csv_writer \<times> 's state" where
  "for_loop ev R [] ws = (None, ws)"
| "for_loop ev R (i # is) ws =
     (case loop_body ev R i ws of
        (Some e, ws') \<Rightarrow> (Some e, ws')
      | (None, ws') \<Rightarrow> for_loop ev R is ws')"

definition completion_message :: string where
  "completion_message =
     ''CSV '' @ [CHR 0xD1, CHR 0x84, CHR 0xD0, CHR 0xB0, CHR 0xD0, CHR 0xB9, CHR 0xD0, CHR 0xBB]
     @ '' '' @ [CHR 0xD1, CHR 0x81, CHR 0xD0, CHR 0xBE, CHR 0xD0, CHR 0xB7, CHR 0xD0, CHR 0xB4,
                CHR 0xD0, CHR 0xB0, CHR 0xD0, CHR 0xBD] @ ''.''"

definition run :: "env \<Rightarrow> 's randint_impl \<Rightarrow> string \<Rightarrow> nat \<Rightarrow> 's state
    \<Rightarrow> py_error option \<times> 's state" where
  "run ev R path N st =
     (case open_w ev path (Newline []) st of
        Inl e \<Rightarrow> (Some e, st)
      | Inr (f, st1) \<Rightarrow>
          let writer = \<lparr>wfile = f, wdialect = excel\<lparr>delimiter := CHR '';''\<rparr>\<rparr> in
          (case for_loop ev R [0..<N] (writer, st1) of
             (Some e, w, st2) \<Rightarrow> (Some e, st2)
           | (None, w, st2) \<Rightarrow>
               if close_fails ev then (Some OSError, st2)
               else print ev completion_message st2))"

definition main :: "env \<Rightarrow> 's randint_impl \<Rightarrow> 's state \<Rightarrow> py_error option \<times> 's state" where
  "main ev R st = run ev R ''test_large.csv'' 1000000 st"

subsection \<open>Reading the output back\<close>

text \<open>
  The observers the properties are stated with: the lines of a text whose lines end in
  CR LF, the fields of a line split at a separator character (\<^verbatim>\<open>line.split(';')\<close>), the
  date a \<^verbatim>\<open>YYYY-MM-DD\<close> string denotes, and the patterns of the six fields.
\<close>

fun crlf_lines :: "string \<Rightarrow> string list" where
  "crlf_lines [] = []"
| "crlf_lines [c] = [ [c] ]"
| "crlf_lines (c # d # cs) =
     (if c = CR \<and> d = LF then [] # crlf_lines cs
      else (case crlf_lines (d # cs) of [] \<Rightarrow> [ [c] ] | l # ls \<Rightarrow> (c # l) # ls))"

fun split_at :: "char \<Rightarrow> string \<Rightarrow> string list" where
  "split_at sep [] = [ [] ]"
| "split_at sep (c # cs) =
     (if c = sep then [] # split_at sep cs
      else (case split_at sep cs of [] \<Rightarrow> [ [c] ] | l # ls \<Rightarrow> (c # l) # ls))"

definition parse_ymd :: "string \<Rightarrow> datetime" where
  "parse_ymd s =
     \<lparr>year = int (parse_nat (take 4 s)),
      month = int (parse_nat (take 2 (drop 5 s))),
      day = int (parse_nat (drop 8 s))\<rparr>"

text \<open>\<^verbatim>\<open>^\d{4}-\d{2}-\d{2}$\<close> on ASCII digits.\<close>

definition matches_date_re :: "string \<Rightarrow> bool" where
  "matches_date_re s =
     (length s = 10 \<and> list_all is_digit (take 4 s) \<and> s ! 4 = CHR ''-'' \<and>
      list_all is_digit (take 2 (drop 5 s)) \<and> s ! 7 = CHR ''-'' \<and>
      list_all is_digit (drop 8 s))"

text \<open>\<^verbatim>\<open>^P\d+$\<close> for a literal prefix \<open>P\<close>, and the integer after the prefix.\<close>

definition matches_prefix_digits :: "string \<Rightarrow> string \<Rightarrow> bool" where
  "matches_prefix_digits p s =
     (take (length p) s = p \<and> drop (length p) s \<noteq> [] \<and> list_all is_digit (drop (length p) s))"

definition embedded_int :: "string \<Rightarrow> string \<Rightarrow> int" where
  "embedded_int p s = int (parse_nat (drop (length p) s))"

subsection \<open>Auxiliary definitions for the proofs and the concrete runs\<close>

text \<open>
  \<open>month_day\<close> is the tail of \<open>ord2ymd\<close> (from the estimate of the month on), and
  \<open>md_ok\<close> what it must satisfy on a day offset within the year. The sources
  \<open>max_source\<close> (every draw is the upper bound) and \<open>mock42\<close> (the day offset is 0,
  every other draw is 42), the environment \<open>quiet_env\<close> without I/O failures (and with
  a standard output that takes every message) and the empty initial state \<open>st0\<close> are the
  concrete inputs of the runs evaluated below. \<open>ascii_encodable\<close> is what a standard
  output with the encoding \<^verbatim>\<open>ascii\<close> can encode.
  \<open>writer_at p n\<close> is the writer of the script after \<open>n\<close> rows: on the file at \<open>p\<close>,
  opened with \<^verbatim>\<open>newline=''\<close>, with the semicolon dialect.
\<close>

definition month_day :: "int \<Rightarrow> bool \<Rightarrow> int \<times> int" where
  "month_day n leapyear =
     (let mth = (n + 50) div 32;
          preceding = DAYS_BEFORE_MONTH ! nat mth + (if mth > 2 \<and> leapyear then 1 else 0)
      in if preceding > n
         then let mth = mth - 1;
                  preceding = preceding
                    - (DAYS_IN_MONTH ! nat mth + (if mth = 2 \<and> leapyear then 1 else 0))
              in (mth, n - preceding + 1)
         else (mth, n - preceding + 1))"

definition md_ok :: "bool \<Rightarrow> int \<Rightarrow> bool" where
  "md_ok lp n = (case month_day n lp of (m, d) \<Rightarrow>
      1 \<le> m \<and> m \<le> 12 \<and> 1 \<le> d \<and> d \<le> (if m = 2 \<and> lp then 29 else DAYS_IN_MONTH ! nat m)
      \<and> DAYS_BEFORE_MONTH ! nat m + (if m > 2 \<and> lp then 1 else 0) + d = n + 1)"

definition writer_at :: "string \<Rightarrow> nat \<Rightarrow> csv_writer" where
  "writer_at p n =
     \<lparr>wfile = \<lparr>fpath = p, fnewline = Newline [], fwrites = n\<rparr>,
      wdialect = excel\<lparr>delimiter := CHR '';''\<rparr>\<rparr>"

definition max_source :: "unit randint_impl" where
  "max_source a b s = (b, s)"

definition mock42 :: "unit randint_impl" where
  "mock42 a b s = (if (a, b) = (0, 8000) then 0 else 42, s)"

definition quiet_env :: env where
  "quiet_env = \<lparr>linesep = [LF], open_fails = False, write_fails = (\<lambda>k. False),
     close_fails = False, stdout_present = True, stdout_encodable = (\<lambda>msg. True),
     stdout_write_fails = False\<rparr>"

definition ascii_encodable :: "string \<Rightarrow> bool" where
  "ascii_encodable msg = list_all (\<lambda>c. (of_char c :: nat) < 128) msg"

definition st0 :: "unit state" where
  "st0 = \<lparr>rng = (), files = Map.empty, stdout = []\<rparr>"

section \<open>Verification\<close>

subsection \<open>The calendar: \<open>ord2ymd\<close> inverts \<open>ymd2ord\<close>\<close>

lemma DI_vals: "DI400Y = 146097" "DI100Y = 36524" "DI4Y = 1461"
  by (simp_all add: DI400Y_def DI100Y_def DI4Y_def days_before_year_def)

lemma dby_decomp:
  assumes "0 \<le> b" "b \<le> 3" "0 \<le> c" "c \<le> 24" "0 \<le> e" "e \<le> 3"
  shows "days_before_year (400 * a + 100 * b + 4 * c + e + 1)
           = 146097 * a + 36524 * b + 1461 * c + 365 * e"
proof -
  define y where "y = 400 * a + 100 * b + 4 * c + e"
  have d4: "y div 4 = 100 * a + 25 * b + c"
    by (rule int_div_pos_eq [where r = e]) (use assms in \<open>simp_all add: y_def\<close>)
  have d100: "y div 100 = 4 * a + b"
    by (rule int_div_pos_eq [where r = "4 * c + e"]) (use assms in \<open>simp_all add: y_def\<close>)
  have d400: "y div 400 = a"
    by (rule int_div_pos_eq [where r = "100 * b + 4 * c + e"]) (use assms in \<open>simp_all add: y_def\<close>)
  have "days_before_year (y + 1) = y * 365 + y div 4 - y div 100 + y div 400"
    by (simp add: days_before_year_def)
  also have "\<dots> = 146097 * a + 36524 * b + 1461 * c + 365 * e"
    unfolding d4 d100 d400 by (simp add: y_def)
  finally show ?thesis by (simp add: y_def)
qed

lemma leap_decomp:
  assumes "0 \<le> b" "b \<le> 3" "0 \<le> c" "c \<le> 24" "0 \<le> e" "e \<le> 3"
  shows "is_leap (400 * a + 100 * b + 4 * c + e + 1) = (e = 3 \<and> (c \<noteq> 24 \<or> b = 3))"
proof -
  define Y where "Y = 400 * a + 100 * b + 4 * c + e + 1"
  have m4: "(Y mod 4 = 0) = (e = 3)"
  proof (cases "e = 3")
    case True
    have "Y mod 4 = 0"
      by (rule int_mod_pos_eq [where q = "100 * a + 25 * b + c + 1"]) (simp_all add: Y_def True)
    with True show ?thesis by simp
  next
    case False
    have "Y mod 4 = e + 1"
      by (rule int_mod_pos_eq [where q = "100 * a + 25 * b + c"])
         (use assms False in \<open>simp_all add: Y_def\<close>)
    with False assms show ?thesis by simp
  qed
  have m100: "(Y mod 100 = 0) = (e = 3 \<and> c = 24)"
  proof (cases "e = 3 \<and> c = 24")
    case True
    have "Y mod 100 = 0"
      by (rule int_mod_pos_eq [where q = "4 * a + b + 1"]) (simp_all add: Y_def True)
    with True show ?thesis by simp
  next
    case False
    have "Y mod 100 = 4 * c + e + 1"
      by (rule int_mod_pos_eq [where q = "4 * a + b"])
         (use assms False in \<open>auto simp add: Y_def\<close>)
    with False assms show ?thesis by auto
  qed
  have m400: "(Y mod 400 = 0) = (e = 3 \<and> c = 24 \<and> b = 3)"
  proof (cases "e = 3 \<and> c = 24 \<and> b = 3")
    case True
    have "Y mod 400 = 0"
      by (rule int_mod_pos_eq [where q = "a + 1"]) (simp_all add: Y_def True)
    with True show ?thesis by simp
  next
    case False
    have "Y mod 400 = 100 * b + 4 * c + e + 1"
      by (rule int_mod_pos_eq [where q = "a"])
         (use assms False in \<open>auto simp add: Y_def\<close>)
    with False assms show ?thesis by auto
  qed
  show ?thesis unfolding is_leap_def Y_def [symmetric] m4 m100 m400 by auto
qed

lemma split_ord:
  fixes n :: int
  assumes "0 \<le> n"
  defines "a \<equiv> n div 146097" and "r1 \<equiv> n mod 146097"
  defines "b \<equiv> r1 div 36524" and "r2 \<equiv> r1 mod 36524"
  defines "c \<equiv> r2 div 1461" and "r3 \<equiv> r2 mod 1461"
  defines "e \<equiv> r3 div 365" and "r \<equiv> r3 mod 365"
  shows "n = 146097 * a + 36524 * b + 1461 * c + 365 * e + r"
    and "0 \<le> a" "0 \<le> b" "b \<le> 4" "0 \<le> c" "c \<le> 24" "0 \<le> e" "e \<le> 4" "0 \<le> r" "r \<le> 364"
    and "b = 4 \<Longrightarrow> c = 0 \<and> e = 0 \<and> r = 0"
    and "e = 4 \<Longrightarrow> r = 0 \<and> c \<le> 23"
proof -
  have r1: "0 \<le> r1" "r1 < 146097" "n = 146097 * a + r1" unfolding r1_def a_def by simp_all
  have r2: "0 \<le> r2" "r2 < 36524" "r1 = 36524 * b + r2" unfolding r2_def b_def by simp_all
  have r3: "0 \<le> r3" "r3 < 1461" "r2 = 1461 * c + r3" unfolding r3_def c_def by simp_all
  have r: "0 \<le> r" "r < 365" "r3 = 365 * e + r" unfolding r_def e_def by simp_all
  show "n = 146097 * a + 36524 * b + 1461 * c + 365 * e + r" using r1 r2 r3 r by linarith
  show "0 \<le> a" using assms(1) unfolding a_def by (simp add: pos_imp_zdiv_nonneg_iff)
  show b0: "0 \<le> b" using r1 unfolding b_def by (simp add: pos_imp_zdiv_nonneg_iff)
  show c0: "0 \<le> c" using r2 unfolding c_def by (simp add: pos_imp_zdiv_nonneg_iff)
  show e0: "0 \<le> e" using r3 unfolding e_def by (simp add: pos_imp_zdiv_nonneg_iff)
  show b4: "b \<le> 4" using r1 r2 by linarith
  show c24: "c \<le> 24" using r2 r3 by linarith
  show e4: "e \<le> 4" using r3 r by linarith
  show "0 \<le> r" "r \<le> 364" using r by simp_all
  show "b = 4 \<Longrightarrow> c = 0 \<and> e = 0 \<and> r = 0" using r1 r2 r3 r c0 e0 by linarith
  show "e = 4 \<Longrightarrow> r = 0 \<and> c \<le> 23" using r2 r3 r c0 e0 by linarith
qed


lemma md_all: "list_all (md_ok False) [0..364]" "list_all (md_ok True) [0..364]"
  by code_simp+

lemma md_ok_range: "0 \<le> r \<Longrightarrow> r \<le> 364 \<Longrightarrow> md_ok lp r"
  using md_all by (cases lp) (simp_all add: list_all_iff)


lemma ord2ymd_unfold:
  "ord2ymd n0 =
    (let n = n0 - 1;
         a = n div 146097; r1 = n mod 146097;
         b = r1 div 36524; r2 = r1 mod 36524;
         c = r2 div 1461; r3 = r2 mod 1461;
         e = r3 div 365; r = r3 mod 365
     in if e = 4 \<or> b = 4 then (a * 400 + 1 + b * 100 + c * 4 + e - 1, 12, 31)
        else (case month_day r (e = 3 \<and> (c \<noteq> 24 \<or> b = 3)) of
                (m, d) \<Rightarrow> (a * 400 + 1 + b * 100 + c * 4 + e, m, d)))"
  unfolding ord2ymd_def month_day_def DI_vals Let_def
  by (simp only: prod.case if_distrib [of "\<lambda>p. case p of (m, d) \<Rightarrow> _ m d"] add.assoc)

lemma ord2ymd_correct:
  assumes n: "1 \<le> n" and res: "ord2ymd n = (y, m, d)"
  shows "1 \<le> m \<and> m \<le> 12 \<and> 1 \<le> d \<and> d \<le> days_in_month y m \<and> ymd2ord y m d = n"
proof -
  define a where "a = (n - 1) div 146097"
  define r1 where "r1 = (n - 1) mod 146097"
  define b where "b = r1 div 36524"
  define r2 where "r2 = r1 mod 36524"
  define c where "c = r2 div 1461"
  define r3 where "r3 = r2 mod 1461"
  define e where "e = r3 div 365"
  define r where "r = r3 mod 365"
  note defs = a_def r1_def b_def r2_def c_def r3_def e_def r_def
  from n have n0: "0 \<le> n - 1" by simp
  note S = split_ord [OF n0, folded defs]
  have res': "(if e = 4 \<or> b = 4 then (a * 400 + 1 + b * 100 + c * 4 + e - 1, 12, 31)
        else (case month_day r (e = 3 \<and> (c \<noteq> 24 \<or> b = 3)) of
                (m, d) \<Rightarrow> (a * 400 + 1 + b * 100 + c * 4 + e, m, d))) = (y, m, d)"
    using res unfolding ord2ymd_unfold Let_def defs .
  consider (cyc) "b = 4" | (quad) "b \<le> 3" "e = 4" | (reg) "b \<le> 3" "e \<le> 3"
    using S(4,8) by linarith
  then show ?thesis
  proof cases
    case cyc
    with S(11) have z: "c = 0" "e = 0" "r = 0" by simp_all
    from res' cyc z have y: "y = 400 * a + 100 * 3 + 4 * 24 + 3 + 1" and md: "m = 12" "d = 31"
      by simp_all
    have dby: "days_before_year y = 146097 * a + 36524 * 3 + 1461 * 24 + 365 * 3"
      unfolding y by (rule dby_decomp) simp_all
    have lp: "is_leap y" unfolding y by (subst leap_decomp) simp_all
    from S(1) cyc z have "n = 146097 * a + 146097" by simp
    with dby lp md show ?thesis
      by (simp add: ymd2ord_def days_in_month_def days_before_month_def
                    DAYS_IN_MONTH_def DAYS_BEFORE_MONTH_def)
  next
    case quad
    with S(12) have z: "r = 0" "c \<le> 23" by simp_all
    from res' quad have y: "y = 400 * a + 100 * b + 4 * c + 3 + 1" and md: "m = 12" "d = 31"
      by simp_all
    have dby: "days_before_year y = 146097 * a + 36524 * b + 1461 * c + 365 * 3"
      unfolding y by (rule dby_decomp) (use S quad z in simp_all)
    have lp: "is_leap y" unfolding y by (subst leap_decomp) (use S quad z in simp_all)
    from S(1) quad z have "n = 146097 * a + 36524 * b + 1461 * c + 1461" by simp
    with dby lp md show ?thesis
      by (simp add: ymd2ord_def days_in_month_def days_before_month_def
                    DAYS_IN_MONTH_def DAYS_BEFORE_MONTH_def)
  next
    case reg
    define lp where "lp = (e = 3 \<and> (c \<noteq> 24 \<or> b = 3))"
    from reg S(3,5,6,7) res' have y: "y = 400 * a + 100 * b + 4 * c + e + 1"
      and md: "month_day r lp = (m, d)"
      by (auto simp add: lp_def split: prod.splits)
    have dby: "days_before_year y = 146097 * a + 36524 * b + 1461 * c + 365 * e"
      unfolding y by (rule dby_decomp) (use S reg in simp_all)
    have lp: "is_leap y = lp" unfolding y lp_def by (rule leap_decomp) (use S reg in simp_all)
    have "md_ok lp r" using S(9,10) by (rule md_ok_range)
    with md have ok: "1 \<le> m" "m \<le> 12" "1 \<le> d"
        "d \<le> (if m = 2 \<and> lp then 29 else DAYS_IN_MONTH ! nat m)"
        "DAYS_BEFORE_MONTH ! nat m + (if m > 2 \<and> lp then 1 else 0) + d = r + 1"
      by (simp_all add: md_ok_def)
    from S(1) have "n = 146097 * a + 36524 * b + 1461 * c + 365 * e + r + 1" by simp
    with dby lp ok show ?thesis
      by (simp add: ymd2ord_def days_in_month_def days_before_month_def)
  qed
qed


subsection \<open>Decimal rendering and reading back\<close>

lemma is_digit_digit_char: "is_digit (digit_char n)"
  unfolding is_digit_def digit_char_def by (rule nth_mem) (simp add: digit_chars_def)

lemma digit_val_digit_char: "digit_val (digit_char n) = n mod 10"
proof -
  have "list_all (\<lambda>k. digit_val (digit_chars ! k) = k) [0..<10]"
    by code_simp
  then have "\<forall>k<10. digit_val (digit_chars ! k) = k"
    by (simp add: list_all_iff)
  then show ?thesis by (simp add: digit_char_def)
qed

lemma str_nat_digits: "list_all is_digit (str_nat n)"
  by (induction n rule: str_nat.induct) (subst str_nat.simps, simp add: is_digit_digit_char)

lemma str_nat_nonempty: "str_nat n \<noteq> []"
  by (subst str_nat.simps) simp

lemma length_str_nat: "0 < k \<Longrightarrow> n < 10 ^ k \<Longrightarrow> length (str_nat n) \<le> k"
proof (induction n arbitrary: k rule: str_nat.induct)
  case (1 n)
  show ?case
  proof (cases "n < 10")
    case True
    then show ?thesis using "1.prems" by (subst str_nat.simps) simp
  next
    case False
    from "1.prems" obtain j where k: "k = Suc j"
      by (cases k) auto
    have j: "0 < j"
    proof (rule ccontr)
      assume "\<not> 0 < j"
      with k "1.prems" False show False by simp
    qed
    from "1.prems" k have "n div 10 < 10 ^ j" by (simp add: less_mult_imp_div_less)
    with "1.IH" [OF False j] have "length (str_nat (n div 10)) \<le> j" by simp
    with False k show ?thesis by (subst str_nat.simps) simp
  qed
qed

lemma parse_nat_snoc: "parse_nat (s @ [c]) = 10 * parse_nat s + digit_val c"
  by (simp add: parse_nat_def)

lemma parse_nat_str_nat: "parse_nat (str_nat n) = n"
proof (induction n rule: str_nat.induct)
  case (1 n)
  show ?case
  proof (cases "n < 10")
    case True
    then show ?thesis
      by (subst str_nat.simps) (simp add: parse_nat_def digit_val_digit_char)
  next
    case False
    with "1.IH" show ?thesis
      by (subst str_nat.simps) (simp add: parse_nat_snoc digit_val_digit_char)
  qed
qed

lemma digit_val_zero: "digit_val CHR ''0'' = 0"
  by (simp add: digit_val_def)

lemma parse_nat_zeros: "parse_nat (replicate k CHR ''0'' @ s) = parse_nat s"
proof -
  have "foldl (\<lambda>acc c. 10 * acc + digit_val c) 0 (replicate k CHR ''0'') = 0"
    by (induction k) (simp_all add: digit_val_zero)
  then show ?thesis by (simp add: parse_nat_def)
qed

lemma is_digit_plain:
  "is_digit c \<Longrightarrow> c \<noteq> CHR '';'' \<and> c \<noteq> CHR 0x22 \<and> c \<noteq> CR \<and> c \<noteq> LF \<and> c \<noteq> CHR ''-''"
  by (auto simp add: is_digit_def digit_chars_def CR_def LF_def)

lemma is_digit_zero: "is_digit CHR ''0''"
  by (simp add: is_digit_def digit_chars_def)

lemma py_str_nonneg: "0 \<le> n \<Longrightarrow> py_str n = str_nat (nat n)"
  by (simp add: py_str_def)

lemma zfill_digits:
  assumes "0 \<le> n" "n < 10 ^ w" "0 < w"
  shows "length (zfill w (py_str n)) = w" "list_all is_digit (zfill w (py_str n))"
    "parse_nat (zfill w (py_str n)) = nat n"
proof -
  from assms have "nat n < 10 ^ w" by (simp add: nat_less_iff)
  with assms(3) have "length (str_nat (nat n)) \<le> w" by (rule length_str_nat)
  with assms(1) show "length (zfill w (py_str n)) = w" by (simp add: zfill_def py_str_nonneg)
  from assms(1) show "list_all is_digit (zfill w (py_str n))"
    using str_nat_digits [of "nat n"]
    by (auto simp add: zfill_def py_str_nonneg list_all_iff is_digit_zero)
  from assms(1) show "parse_nat (zfill w (py_str n)) = nat n"
    by (simp add: zfill_def py_str_nonneg parse_nat_zeros parse_nat_str_nat)
qed


subsection \<open>The calendar: ordinals grow with dates\<close>

lemma div_step:
  fixes z k :: int
  assumes k: "0 < k"
  shows "(z + 1) div k = z div k + (if (z + 1) mod k = 0 then 1 else 0)"
proof -
  define q where "q = z div k"
  define r where "r = z mod k"
  have z: "z = k * q + r" and r: "0 \<le> r" "r < k"
    using k by (simp_all add: q_def r_def)
  show ?thesis
  proof (cases "r = k - 1")
    case True
    with z have A: "z + 1 = k * (q + 1) + 0" by (simp add: algebra_simps)
    have "(z + 1) div k = q + 1" by (rule int_div_pos_eq [OF A]) (use k in simp_all)
    moreover have "(z + 1) mod k = 0" by (rule int_mod_pos_eq [OF A]) (use k in simp_all)
    ultimately show ?thesis by (simp add: q_def)
  next
    case False
    from z have A: "z + 1 = k * q + (r + 1)" by simp
    from False r have B: "0 \<le> r + 1" "r + 1 < k" by simp_all
    have "(z + 1) div k = q" by (rule int_div_pos_eq [OF A B])
    moreover have "(z + 1) mod k = r + 1" by (rule int_mod_pos_eq [OF A B])
    ultimately show ?thesis using r by (simp add: q_def)
  qed
qed

lemma mod_chain: "y mod 400 = 0 \<Longrightarrow> y mod 100 = 0" "y mod 100 = 0 \<Longrightarrow> y mod 4 = 0" for y :: int
  using mod_mod_cancel [of 100 400 y] mod_mod_cancel [of 4 100 y] by simp_all

lemma dby_step: "days_before_year (y + 1) = days_before_year y + (if is_leap y then 366 else 365)"
proof -
  define A where "A = (y - 1) div 4"
  define B where "B = (y - 1) div 100"
  define C where "C = (y - 1) div 400"
  have d4: "y div 4 = A + (if y mod 4 = 0 then 1 else 0)"
    using div_step [of 4 "y - 1"] by (simp add: A_def)
  have d100: "y div 100 = B + (if y mod 100 = 0 then 1 else 0)"
    using div_step [of 100 "y - 1"] by (simp add: B_def)
  have d400: "y div 400 = C + (if y mod 400 = 0 then 1 else 0)"
    using div_step [of 400 "y - 1"] by (simp add: C_def)
  have new: "days_before_year (y + 1) = y * 365 + y div 4 - y div 100 + y div 400"
    by (simp add: days_before_year_def)
  have old: "days_before_year y = (y - 1) * 365 + A - B + C"
    by (simp add: days_before_year_def Let_def A_def B_def C_def)
  consider (c400) "y mod 400 = 0" | (c100) "y mod 400 \<noteq> 0" "y mod 100 = 0"
    | (c4) "y mod 100 \<noteq> 0" "y mod 4 = 0" | (c1) "y mod 4 \<noteq> 0"
    by blast
  then show ?thesis
  proof cases
    case c400
    with mod_chain [of y] have "y mod 100 = 0" "y mod 4 = 0" by simp_all
    with c400 show ?thesis unfolding new old d4 d100 d400 is_leap_def by simp
  next
    case c100
    with mod_chain [of y] have "y mod 4 = 0" by simp
    with c100 show ?thesis unfolding new old d4 d100 d400 is_leap_def by simp
  next
    case c4
    from c4(1) mod_chain(1) [of y] have "y mod 400 \<noteq> 0" by auto
    with c4 show ?thesis unfolding new old d4 d100 d400 is_leap_def by simp
  next
    case c1
    from c1 mod_chain(2) [of y] have c100: "y mod 100 \<noteq> 0" by auto
    from c100 mod_chain(1) [of y] have "y mod 400 \<noteq> 0" by auto
    note c100 this
    with c1 show ?thesis unfolding new old d4 d100 d400 is_leap_def by simp
  qed
qed

lemma dby_mono_nat: "days_before_year y + 365 * int k \<le> days_before_year (y + int k)"
proof (induction k)
  case 0
  show ?case by simp
next
  case (Suc k)
  have "days_before_year (y + int k) + 365 \<le> days_before_year (y + int k + 1)"
    by (simp add: dby_step)
  moreover have "y + int (Suc k) = y + int k + 1" "365 * int (Suc k) = 365 * int k + 365"
    by simp_all
  ultimately show ?case using Suc by (simp only:)
qed

lemma dby_mono: "y1 \<le> y2 \<Longrightarrow> days_before_year y1 \<le> days_before_year y2"
  using dby_mono_nat [of y1 "nat (y2 - y1)"] by simp

lemma month_cases:
  "1 \<le> m \<Longrightarrow> m \<le> 12 \<Longrightarrow>
     m = 1 \<or> m = 2 \<or> m = 3 \<or> m = 4 \<or> m = 5 \<or> m = 6 \<or> m = 7 \<or> m = 8 \<or> m = 9 \<or> m = 10
     \<or> m = 11 \<or> m = (12::int)"
  by arith

lemma dbm_range:
  assumes "1 \<le> m" "m \<le> 12"
  shows "0 \<le> days_before_month y m"
    and "days_before_month y m + days_in_month y m \<le> (if is_leap y then 366 else 365)"
  using month_cases [OF assms]
  by (elim disjE; simp add: days_before_month_def days_in_month_def DAYS_BEFORE_MONTH_def
        DAYS_IN_MONTH_def)+

lemma dbm_mono:
  assumes "1 \<le> m1" "m1 < m2" "m2 \<le> 12"
  shows "days_before_month y m1 + days_in_month y m1 \<le> days_before_month y m2"
proof -
  from assms have a: "1 \<le> m1" "m1 \<le> 12" and b: "1 \<le> m2" "m2 \<le> 12" by simp_all
  show ?thesis
    using month_cases [OF a] month_cases [OF b] assms(2)
    by (elim disjE; simp add: days_before_month_def days_in_month_def DAYS_BEFORE_MONTH_def
          DAYS_IN_MONTH_def)
qed

lemma ymd2ord_year_bounds:
  assumes "1 \<le> m" "m \<le> 12" "1 \<le> d" "d \<le> days_in_month y m"
  shows "days_before_year y < ymd2ord y m d" "ymd2ord y m d \<le> days_before_year (y + 1)"
  using dbm_range [OF assms(1,2), of y] assms(3,4)
  by (simp_all add: ymd2ord_def dby_step split: if_splits)

lemma toordinal_less_year:
  assumes a: "valid_date a" and b: "valid_date b" and lt: "year a < year b"
  shows "toordinal a < toordinal b"
proof -
  from a have "toordinal a \<le> days_before_year (year a + 1)"
    unfolding toordinal_def valid_date_def by (intro ymd2ord_year_bounds) simp_all
  also from lt have "\<dots> \<le> days_before_year (year b)" by (intro dby_mono) simp
  also from b have "\<dots> < toordinal b"
    unfolding toordinal_def valid_date_def by (intro ymd2ord_year_bounds) simp_all
  finally show ?thesis .
qed

lemma toordinal_less_month:
  assumes a: "valid_date a" and b: "valid_date b"
    and y: "year a = year b" and lt: "month a < month b"
  shows "toordinal a < toordinal b"
proof -
  from a b lt have "days_before_month (year a) (month a) + days_in_month (year a) (month a)
      \<le> days_before_month (year a) (month b)"
    unfolding valid_date_def by (intro dbm_mono) simp_all
  with a b y show ?thesis
    by (simp add: toordinal_def ymd2ord_def valid_date_def)
qed

lemma toordinal_mono:
  assumes a: "valid_date a" and b: "valid_date b" and le: "toordinal a \<le> toordinal b"
  shows "date_le a b"
proof (rule ccontr)
  assume n: "\<not> date_le a b"
  then consider (yr) "year b < year a" | (mth) "year b = year a" "month b < month a"
    | (dy) "year b = year a" "month b = month a" "day b < day a"
    unfolding date_le_def by force
  then have "toordinal b < toordinal a"
  proof cases
    case yr with a b show ?thesis by (intro toordinal_less_year)
  next
    case mth with a b show ?thesis by (intro toordinal_less_month)
  next
    case dy then show ?thesis by (simp add: toordinal_def ymd2ord_def)
  qed
  with le show False by simp
qed

lemma dby_consts: "days_before_year 1 = 0" "days_before_year 10000 = 3652059"
  by (simp_all add: days_before_year_def)

lemma ord2ymd_valid:
  assumes n: "1 \<le> n" "n \<le> MAXORDINAL" and res: "ord2ymd n = (y, m, d)"
  shows "valid_date \<lparr>year = y, month = m, day = d\<rparr>"
    and "toordinal \<lparr>year = y, month = m, day = d\<rparr> = n"
proof -
  from ord2ymd_correct [OF n(1) res]
  have md: "1 \<le> m" "m \<le> 12" "1 \<le> d" "d \<le> days_in_month y m" and ord: "ymd2ord y m d = n"
    by simp_all
  from ord show "toordinal \<lparr>year = y, month = m, day = d\<rparr> = n" by (simp add: toordinal_def)
  have lo: "1 \<le> y"
  proof (rule ccontr)
    assume "\<not> 1 \<le> y"
    then have "days_before_year (y + 1) \<le> days_before_year 1" by (intro dby_mono) simp
    with ymd2ord_year_bounds(2) [OF md] ord n(1) show False by (simp add: dby_consts)
  qed
  have hi: "y \<le> 9999"
  proof (rule ccontr)
    assume "\<not> y \<le> 9999"
    then have "days_before_year 10000 \<le> days_before_year y" by (intro dby_mono) simp
    with ymd2ord_year_bounds(1) [OF md] ord n(2) show False
      by (simp add: dby_consts MAXORDINAL_def)
  qed
  from lo hi md show "valid_date \<lparr>year = y, month = m, day = d\<rparr>"
    by (simp add: valid_date_def)
qed

lemma datetime_add_ok:
  assumes "0 < toordinal dt + k" "toordinal dt + k \<le> MAXORDINAL"
  shows "\<exists>dt'. datetime_add dt k = Inr dt' \<and> valid_date dt' \<and> toordinal dt' = toordinal dt + k"
proof -
  obtain y m d where res: "ord2ymd (toordinal dt + k) = (y, m, d)"
    by (cases "ord2ymd (toordinal dt + k)") auto
  from assms(1) have "1 \<le> toordinal dt + k" by simp
  from ord2ymd_valid [OF this assms(2) res] res assms show ?thesis
    by (simp add: datetime_add_def Let_def)
qed

lemma epoch_facts:
  "datetime_new 2000 1 1 = Inr \<lparr>year = 2000, month = 1, day = 1\<rparr>"
  "valid_date \<lparr>year = 2000, month = 1, day = 1\<rparr>"
  "toordinal \<lparr>year = 2000, month = 1, day = 1\<rparr> = 730120"
  "valid_date \<lparr>year = 2021, month = 11, day = 26\<rparr>"
  "toordinal \<lparr>year = 2021, month = 11, day = 26\<rparr> = 738120"
  by (simp_all add: datetime_new_def valid_date_def toordinal_def ymd2ord_def
        days_before_year_def days_before_month_def days_in_month_def is_leap_def
        DAYS_IN_MONTH_def DAYS_BEFORE_MONTH_def)

lemma epoch_add:
  assumes "0 \<le> k" "k \<le> 8000"
  shows "\<exists>dt. datetime_add \<lparr>year = 2000, month = 1, day = 1\<rparr> k = Inr dt \<and> valid_date dt
           \<and> toordinal dt = 730120 + k
           \<and> date_le \<lparr>year = 2000, month = 1, day = 1\<rparr> dt
           \<and> date_le dt \<lparr>year = 2021, month = 11, day = 26\<rparr>"
proof -
  let ?e = "\<lparr>year = 2000, month = 1, day = 1\<rparr>"
  from assms have "0 < toordinal ?e + k" "toordinal ?e + k \<le> MAXORDINAL"
    by (simp_all add: epoch_facts MAXORDINAL_def)
  from datetime_add_ok [OF this] obtain dt where dt: "datetime_add ?e k = Inr dt"
    "valid_date dt" "toordinal dt = 730120 + k"
    by (auto simp add: epoch_facts)
  from assms dt have "date_le ?e dt"
    by (intro toordinal_mono) (simp_all add: epoch_facts)
  moreover from assms dt have "date_le dt \<lparr>year = 2021, month = 11, day = 26\<rparr>"
    by (intro toordinal_mono) (simp_all add: epoch_facts)
  ultimately show ?thesis using dt by simp
qed

subsection \<open>Formatting a date and reading it back\<close>

lemma dim_le_31:
  assumes "1 \<le> m" "m \<le> 12"
  shows "days_in_month y m \<le> 31"
  using month_cases [OF assms]
  by (elim disjE; simp add: days_in_month_def DAYS_IN_MONTH_def)

lemma strftime_parts:
  assumes "valid_date dt"
  obtains Y M D where "strftime_ymd dt = Y @ ''-'' @ M @ ''-'' @ D"
    "length Y = 4" "length M = 2" "length D = 2"
    "list_all is_digit Y" "list_all is_digit M" "list_all is_digit D"
    "parse_nat Y = nat (year dt)" "parse_nat M = nat (month dt)" "parse_nat D = nat (day dt)"
proof -
  from assms have y: "0 \<le> year dt" "year dt < 10 ^ 4" and m: "0 \<le> month dt" "month dt < 10 ^ 2"
    and d0: "0 \<le> day dt" "day dt \<le> days_in_month (year dt) (month dt)"
    and mr: "1 \<le> month dt" "month dt \<le> 12"
    by (simp_all add: valid_date_def)
  from dim_le_31 [OF mr, of "year dt"] d0 have d: "0 \<le> day dt" "day dt < 10 ^ 2" by simp_all
  show thesis
  proof (rule that [of "zfill 4 (py_str (year dt))" "zfill 2 (py_str (month dt))"
        "zfill 2 (py_str (day dt))"])
    show "strftime_ymd dt = zfill 4 (py_str (year dt)) @ ''-'' @ zfill 2 (py_str (month dt))
        @ ''-'' @ zfill 2 (py_str (day dt))"
      by (simp add: strftime_ymd_def)
  qed (use y m d in \<open>simp_all only: zfill_digits zero_less_numeral\<close>)
qed

lemma strftime_matches: "valid_date dt \<Longrightarrow> matches_date_re (strftime_ymd dt)"
  by (erule strftime_parts) (simp add: matches_date_re_def nth_append)

lemma strftime_parse:
  assumes v: "valid_date dt"
  shows "parse_ymd (strftime_ymd dt) = dt"
proof -
  from v obtain Y M D where "strftime_ymd dt = Y @ ''-'' @ M @ ''-'' @ D"
    "length Y = 4" "length M = 2" "length D = 2"
    "parse_nat Y = nat (year dt)" "parse_nat M = nat (month dt)" "parse_nat D = nat (day dt)"
    by (rule strftime_parts)
  with v show ?thesis by (cases dt) (simp add: parse_ymd_def valid_date_def)
qed

lemma strftime_chars:
  "valid_date dt \<Longrightarrow> c \<in> set (strftime_ymd dt) \<Longrightarrow> is_digit c \<or> c = CHR ''-''"
  by (erule strftime_parts) (auto simp add: list_all_iff)

subsection \<open>One generated row\<close>

lemma contract_draw:
  assumes "randint_contract R" "a \<le> b"
  obtains n s' where "randint R a b s = Inr (n, s')" "R a b s = (n, s')" "a \<le> n" "n \<le> b"
proof -
  obtain n s' where r: "R a b s = (n, s')" by (cases "R a b s") auto
  from assms have "a \<le> fst (R a b s)" "fst (R a b s) \<le> b"
    unfolding randint_contract_def by blast+
  with r assms(2) show thesis by (intro that [of n s']) (simp_all add: randint_def)
qed

lemma generate_row_shape:
  assumes R: "randint_contract R"
  obtains k n1 n2 n3 n4 n5 dt s1 s2 s3 s4 s5 s' where
    "generate_row R s =
       Inr ([strftime_ymd dt, ''Name'' @ py_str n1, ''Surname'' @ py_str n2,
             ''Patronymic'' @ py_str n3, ''City'' @ py_str n4, ''Country'' @ py_str n5], s')"
    "R 0 8000 s = (k, s1)" "R 1 1000000 s1 = (n1, s2)" "R 1 1000000 s2 = (n2, s3)"
    "R 1 1000000 s3 = (n3, s4)" "R 1 1000 s4 = (n4, s5)" "R 1 100 s5 = (n5, s')"
    "0 \<le> k" "k \<le> 8000"
    "datetime_add \<lparr>year = 2000, month = 1, day = 1\<rparr> k = Inr dt"
    "valid_date dt" "toordinal dt = 730120 + k"
    "date_le \<lparr>year = 2000, month = 1, day = 1\<rparr> dt"
    "date_le dt \<lparr>year = 2021, month = 11, day = 26\<rparr>"
    "1 \<le> n1" "n1 \<le> 1000000" "1 \<le> n2" "n2 \<le> 1000000" "1 \<le> n3" "n3 \<le> 1000000"
    "1 \<le> n4" "n4 \<le> 1000" "1 \<le> n5" "n5 \<le> 100"
proof -
  obtain k s1
    where d0: "randint R 0 8000 s = Inr (k, s1)"
      "R 0 8000 s = (k, s1)"
      "0 \<le> k" "k \<le> 8000"
    by (rule contract_draw [OF R, of 0 8000 s]) simp_all
  obtain n1 s2
    where d1: "randint R 1 1000000 s1 = Inr (n1, s2)"
      "R 1 1000000 s1 = (n1, s2)"
      "1 \<le> n1" "n1 \<le> 1000000"
    by (rule contract_draw [OF R, of 1 1000000 s1]) simp_all
  obtain n2 s3
    where d2: "randint R 1 1000000 s2 = Inr (n2, s3)"
      "R 1 1000000 s2 = (n2, s3)"
      "1 \<le> n2" "n2 \<le> 1000000"
    by (rule contract_draw [OF R, of 1 1000000 s2]) simp_all
  obtain n3 s4
    where d3: "randint R 1 1000000 s3 = Inr (n3, s4)"
      "R 1 1000000 s3 = (n3, s4)"
      "1 \<le> n3" "n3 \<le> 1000000"
    by (rule contract_draw [OF R, of 1 1000000 s3]) simp_all
  obtain n4 s5
    where d4: "randint R 1 1000 s4 = Inr (n4, s5)"
      "R 1 1000 s4 = (n4, s5)"
      "1 \<le> n4" "n4 \<le> 1000"
    by (rule contract_draw [OF R, of 1 1000 s4]) simp_all
  obtain n5 s6
    where d5: "randint R 1 100 s5 = Inr (n5, s6)"
      "R 1 100 s5 = (n5, s6)"
      "1 \<le> n5" "n5 \<le> 100"
    by (rule contract_draw [OF R, of 1 100 s5]) simp_all
  from epoch_add [OF d0(3,4)] obtain dt
    where dt: "datetime_add \<lparr>year = 2000, month = 1, day = 1\<rparr> k = Inr dt"
      and dtv: "valid_date dt" "toordinal dt = 730120 + k"
        "date_le \<lparr>year = 2000, month = 1, day = 1\<rparr> dt"
        "date_le dt \<lparr>year = 2021, month = 11, day = 26\<rparr>"
    by blast
  from d0(3,4) have td: "timedelta_days k = Inr k" by (simp add: timedelta_days_def)
  have "generate_row R s =
       Inr ([strftime_ymd dt, ''Name'' @ py_str n1, ''Surname'' @ py_str n2,
             ''Patronymic'' @ py_str n3, ''City'' @ py_str n4, ''Country'' @ py_str n5], s6)"
    unfolding generate_row_def
    by (simp add: epoch_facts(1) d0(1) d1(1) d2(1) d3(1) d4(1) d5(1) td dt)
  then show thesis
    using d0(2) d1(2) d2(2) d3(2) d4(2) d5(2) d0(3,4) dt dtv d1(3,4) d2(3,4) d3(3,4) d4(3,4) d5(3,4)
    by (rule that)
qed

lemma prefixed_field:
  assumes "0 \<le> n"
  shows "matches_prefix_digits p (p @ py_str n)" "embedded_int p (p @ py_str n) = n"
  using assms str_nat_digits [of "nat n"] str_nat_nonempty [of "nat n"]
  by (simp_all add: matches_prefix_digits_def embedded_int_def py_str_nonneg parse_nat_str_nat)

subsection \<open>Joining, splitting and the writer on plain fields\<close>

lemma max_source_contract: "randint_contract max_source"
  by (simp add: randint_contract_def max_source_def)

text \<open>Fields free of the delimiter are written as they are and split back.\<close>

lemma split_at_plain: "sep \<notin> set f \<Longrightarrow> split_at sep f = [f]"
  by (induction f) auto

lemma split_at_append:
  "sep \<notin> set f \<Longrightarrow> split_at sep (f @ sep # rest) = f # split_at sep rest"
  by (induction f) auto

lemma split_at_join:
  "row \<noteq> [] \<Longrightarrow> \<forall>f\<in>set row. sep \<notin> set f \<Longrightarrow> split_at sep (join [sep] row) = row"
proof (induction row)
  case Nil
  then show ?case by simp
next
  case (Cons x xs)
  show ?case
  proof (cases xs)
    case Nil
    with Cons.prems show ?thesis by (simp add: split_at_plain)
  next
    case (Cons y ys)
    with Cons.IH Cons.prems have "split_at sep (join [sep] (y # ys)) = y # ys" by simp
    with Cons Cons.prems show ?thesis by (simp add: split_at_append)
  qed
qed

lemma set_join: "set (join sep row) \<subseteq> set sep \<union> \<Union> (set ` set row)"
  by (induction sep row rule: join.induct) auto

lemma crlf_lines_append:
  "CR \<notin> set l \<Longrightarrow> crlf_lines (l @ CR # LF # rest) = l # crlf_lines rest"
proof (induction l)
  case Nil
  show ?case by simp
next
  case (Cons c l)
  then have c: "c \<noteq> CR" and IH: "crlf_lines (l @ CR # LF # rest) = l # crlf_lines rest"
    by auto
  obtain d ds where ds: "l @ CR # LF # rest = d # ds" by (cases "l @ CR # LF # rest") auto
  from c IH show ?case unfolding append_Cons ds by simp
qed

lemma crlf_lines_concat:
  "\<forall>l\<in>set ls. CR \<notin> set l \<Longrightarrow> crlf_lines (concat (map (\<lambda>l. l @ [CR, LF]) ls)) = ls"
  by (induction ls) (simp_all add: crlf_lines_append)

lemma quote_field_plain:
  "\<forall>c\<in>set f. \<not> special_char dl c \<Longrightarrow> quote_field dl f = f"
  by (simp add: quote_field_def list_ex_iff)

lemma row_text_plain:
  assumes "\<forall>f\<in>set row. \<forall>c\<in>set f. \<not> special_char dl c" "row \<noteq> [ [] ]"
  shows "row_text dl row = join [delimiter dl] row @ lineterminator dl"
proof -
  from assms(1) have "map (quote_field dl) row = row"
    by (intro map_idI) (simp add: quote_field_plain)
  with assms(2) show ?thesis by (simp add: row_text_def)
qed

subsection \<open>Concrete rows\<close>

lemma str_ex: "py_str 1000000 = ''1000000''" "py_str 1000 = ''1000''" "py_str 100 = ''100''"
  "py_str 42 = ''42''"
  by (simp_all add: py_str_def str_nat.simps digit_char_def digit_chars_def)

lemma add_ex:
  "datetime_add \<lparr>year = 2000, month = 1, day = 1\<rparr> 8000
     = Inr \<lparr>year = 2021, month = 11, day = 26\<rparr>"
  "datetime_add \<lparr>year = 2000, month = 1, day = 1\<rparr> 0
     = Inr \<lparr>year = 2000, month = 1, day = 1\<rparr>"
  by (simp_all add: datetime_add_def epoch_facts MAXORDINAL_def ord2ymd_def DI_vals Let_def
        DAYS_BEFORE_MONTH_def DAYS_IN_MONTH_def)

lemma fmt_ex:
  "strftime_ymd \<lparr>year = 2021, month = 11, day = 26\<rparr> = ''2021-11-26''"
  "strftime_ymd \<lparr>year = 2000, month = 1, day = 1\<rparr> = ''2000-01-01''"
  by (simp_all add: strftime_ymd_def zfill_def py_str_def str_nat.simps digit_char_def
        digit_chars_def)

lemma g_max:
  "generate_row max_source () =
     Inr ([''2021-11-26'', ''Name1000000'', ''Surname1000000'', ''Patronymic1000000'',
           ''City1000'', ''Country100''], ())"
  by (simp add: generate_row_def epoch_facts(1) randint_def max_source_def timedelta_days_def
        add_ex fmt_ex str_ex)

lemma g_42:
  "generate_row mock42 () =
     Inr ([''2000-01-01'', ''Name42'', ''Surname42'', ''Patronymic42'', ''City42'',
           ''Country42''], ())"
  by (simp add: generate_row_def epoch_facts(1) randint_def mock42_def timedelta_days_def
        add_ex fmt_ex str_ex)

lemma parse_ex: "parse_ymd ''2021-11-26'' = \<lparr>year = 2021, month = 11, day = 26\<rparr>"
  by (simp add: parse_ymd_def parse_nat_def digit_val_def)

subsection \<open>Generated rows hold no special character\<close>

lemma dialect_simps:
  "delimiter (excel\<lparr>delimiter := CHR '';''\<rparr>) = CHR '';''"
  "quotechar (excel\<lparr>delimiter := CHR '';''\<rparr>) = CHR 0x22"
  "lineterminator (excel\<lparr>delimiter := CHR '';''\<rparr>) = [CR, LF]"
  by (simp_all add: excel_def)

lemma special_char_semicolon:
  "special_char (excel\<lparr>delimiter := CHR '';''\<rparr>) c
     = (c = CHR '';'' \<or> c = CHR 0x22 \<or> c = CR \<or> c = LF)"
  by (auto simp add: special_char_def dialect_simps)

lemma py_str_plain:
  assumes "0 \<le> n" "c \<in> set (py_str n)"
  shows "c \<noteq> CHR '';'' \<and> c \<noteq> CHR 0x22 \<and> c \<noteq> CR \<and> c \<noteq> LF"
proof -
  from assms str_nat_digits [of "nat n"] have "is_digit c"
    by (simp add: py_str_nonneg list_all_iff)
  then show ?thesis using is_digit_plain by blast
qed

lemma strftime_plain:
  assumes "valid_date dt" "c \<in> set (strftime_ymd dt)"
  shows "c \<noteq> CHR '';'' \<and> c \<noteq> CHR 0x22 \<and> c \<noteq> CR \<and> c \<noteq> LF"
proof -
  from strftime_chars [OF assms] show ?thesis
  proof
    assume "is_digit c"
    then show ?thesis using is_digit_plain by blast
  next
    assume "c = CHR ''-''"
    then show ?thesis by (simp add: CR_def LF_def)
  qed
qed

lemma generated_row_plain:
  assumes R: "randint_contract R" and g: "generate_row R s = Inr (row, s')"
  shows "length row = 6"
    and "\<forall>f\<in>set row. \<forall>c\<in>set f. c \<noteq> CHR '';'' \<and> c \<noteq> CHR 0x22 \<and> c \<noteq> CR \<and> c \<noteq> LF"
proof -
  from R obtain n1 n2 n3 n4 n5 dt s'' where
    row: "generate_row R s =
       Inr ([strftime_ymd dt, ''Name'' @ py_str n1, ''Surname'' @ py_str n2,
             ''Patronymic'' @ py_str n3, ''City'' @ py_str n4, ''Country'' @ py_str n5], s'')"
    and dt: "valid_date dt"
    and r: "1 \<le> n1" "1 \<le> n2" "1 \<le> n3" "1 \<le> n4" "1 \<le> n5"
    by (rule generate_row_shape [of R s])
  from r have nn: "0 \<le> n1" "0 \<le> n2" "0 \<le> n3" "0 \<le> n4" "0 \<le> n5" by simp_all
  from row g have eq: "row = [strftime_ymd dt, ''Name'' @ py_str n1, ''Surname'' @ py_str n2,
             ''Patronymic'' @ py_str n3, ''City'' @ py_str n4, ''Country'' @ py_str n5]"
    by simp
  then show "length row = 6" by simp
  have lit: "\<forall>c\<in>set (''Name'' @ ''Surname'' @ ''Patronymic'' @ ''City'' @ ''Country'').
      c \<noteq> CHR '';'' \<and> c \<noteq> CHR 0x22 \<and> c \<noteq> CR \<and> c \<noteq> LF"
    by (simp add: CR_def LF_def)
  show "\<forall>f\<in>set row. \<forall>c\<in>set f. c \<noteq> CHR '';'' \<and> c \<noteq> CHR 0x22 \<and> c \<noteq> CR \<and> c \<noteq> LF"
    unfolding eq using strftime_plain [OF dt] nn [THEN py_str_plain] lit
    by (simp add: ball_Un)
qed

lemma generated_row_text:
  assumes R: "randint_contract R" and g: "generate_row R s = Inr (row, s')"
  shows "row_text (excel\<lparr>delimiter := CHR '';''\<rparr>) row = join '';'' row @ [CR, LF]"
proof -
  from generated_row_plain [OF R g]
  have len: "length row = 6"
    and plain: "\<forall>f\<in>set row. \<forall>c\<in>set f. \<not> special_char (excel\<lparr>delimiter := CHR '';''\<rparr>) c"
    by (simp_all add: special_char_semicolon)
  from len have "row \<noteq> [ [] ]" by auto
  with plain show ?thesis
    using row_text_plain [of row "excel\<lparr>delimiter := CHR '';''\<rparr>"]
    by (simp add: dialect_simps)
qed

lemma generated_line:
  assumes R: "randint_contract R" and g: "generate_row R s = Inr (row, s')"
  shows "CR \<notin> set (join '';'' row)" "LF \<notin> set (join '';'' row)"
    "split_at CHR '';'' (join '';'' row) = row"
proof -
  note p = generated_row_plain [OF R g]
  from p(1) have ne: "row \<noteq> []" by auto
  from p(2) have "\<forall>f\<in>set row. CHR '';'' \<notin> set f" by blast
  with ne show "split_at CHR '';'' (join '';'' row) = row" by (rule split_at_join)
  have "c \<noteq> CR \<and> c \<noteq> LF" if c: "c \<in> set (join '';'' row)" for c
  proof -
    from c set_join [of "'';''" row] have "c = CHR '';'' \<or> (\<exists>f\<in>set row. c \<in> set f)"
      by fastforce
    then show ?thesis
    proof
      assume "c = CHR '';''"
      then show ?thesis by (simp add: CR_def LF_def)
    next
      assume "\<exists>f\<in>set row. c \<in> set f"
      with p(2) show ?thesis by blast
    qed
  qed
  then show "CR \<notin> set (join '';'' row)" "LF \<notin> set (join '';'' row)" by blast+
qed

subsection \<open>The loop\<close>

lemma translate_newlines_empty: "translate_newlines (Newline []) sep text = text"
  by (simp add: translate_newlines_def)

lemma writerow_at:
  "writerow ev (writer_at p n) row st =
     (if write_fails ev n then (Some OSError, writer_at p n, st)
      else (None, writer_at p (Suc n),
            st\<lparr>files := (files st)(p \<mapsto>
                 (case files st p of None \<Rightarrow> [] | Some old \<Rightarrow> old)
                 @ row_text (excel\<lparr>delimiter := CHR '';''\<rparr>) row)\<rparr>))"
  by (simp add: writerow_def file_write_def writer_at_def translate_newlines_empty)

lemma loop_body_ok:
  assumes R: "randint_contract R" and w: "\<not> write_fails ev n" and f: "files st p = Some old"
  obtains row s' where "generate_row R (rng st) = Inr (row, s')"
    "loop_body ev R i (writer_at p n, st) =
       (None, writer_at p (Suc n),
        st\<lparr>rng := s', files := (files st)(p \<mapsto> old @ join '';'' row @ [CR, LF])\<rparr>)"
proof -
  from R obtain row s' where g: "generate_row R (rng st) = Inr (row, s')"
    by (rule generate_row_shape [of R "rng st"])
  from generated_row_text [OF R g] w f
  have "loop_body ev R i (writer_at p n, st) =
       (None, writer_at p (Suc n),
        st\<lparr>rng := s', files := (files st)(p \<mapsto> old @ join '';'' row @ [CR, LF])\<rparr>)"
    by (simp add: loop_body_def g writerow_at)
  with g show thesis by (rule that)
qed

lemma loop_body_fail:
  assumes R: "randint_contract R" and w: "write_fails ev n"
  shows "\<exists>s'. loop_body ev R i (writer_at p n, st) = (Some OSError, writer_at p n, st\<lparr>rng := s'\<rparr>)"
proof -
  from R obtain row s' where g: "generate_row R (rng st) = Inr (row, s')"
    by (rule generate_row_shape [of R "rng st"])
  with w have "loop_body ev R i (writer_at p n, st)
      = (Some OSError, writer_at p n, st\<lparr>rng := s'\<rparr>)"
    by (simp add: loop_body_def writerow_at)
  then show ?thesis ..
qed

text \<open>What a pass of the loop body leaves alone, whatever the random source does.\<close>

lemma loop_body_frame:
  obtains r n' st' where "loop_body ev R i (writer_at p n, st) = (r, writer_at p n', st')"
    "stdout st' = stdout st" "\<forall>q. q \<noteq> p \<longrightarrow> files st' q = files st q"
    "files st p \<noteq> None \<longrightarrow> files st' p \<noteq> None"
proof (cases "generate_row R (rng st)")
  case (Inl e)
  then have "loop_body ev R i (writer_at p n, st) = (Some e, writer_at p n, st)"
    by (simp add: loop_body_def)
  then show thesis by (rule that) simp_all
next
  case (Inr a)
  obtain row s' where a: "a = (row, s')" by (cases a)
  show thesis
  proof (cases "write_fails ev n")
    case True
    with Inr a have "loop_body ev R i (writer_at p n, st) = (Some OSError, writer_at p n, st\<lparr>rng := s'\<rparr>)"
      by (simp add: loop_body_def writerow_at)
    then show thesis by (rule that) simp_all
  next
    case False
    with Inr a have "loop_body ev R i (writer_at p n, st) = (None, writer_at p (Suc n),
        st\<lparr>rng := s', files := (files st)(p \<mapsto>
                 (case files st p of None \<Rightarrow> [] | Some old \<Rightarrow> old)
                 @ row_text (excel\<lparr>delimiter := CHR '';''\<rparr>) row)\<rparr>)"
      by (simp add: loop_body_def writerow_at)
    then show thesis by (rule that) simp_all
  qed
qed


lemma for_loop_ok:
  assumes R: "randint_contract R"
  shows "\<forall>j<length is. \<not> write_fails ev (n + j) \<Longrightarrow> files st p = Some old \<Longrightarrow>
    \<exists>rows st'.
      for_loop ev R is (writer_at p n, st) = (None, writer_at p (n + length is), st')
      \<and> length rows = length is
      \<and> (\<forall>row\<in>set rows. \<exists>s s'. generate_row R s = Inr (row, s'))
      \<and> files st'
          = (files st)(p \<mapsto> old @ concat (map (\<lambda>row. join '';'' row @ [CR, LF]) rows))
      \<and> stdout st' = stdout st"
proof (induction "is" arbitrary: n st old)
  case Nil
  then have "files st = (files st)(p \<mapsto> old)" by auto
  then show ?case by (intro exI [of _ "[]"] exI [of _ st]) simp
next
  case (Cons i "is")
  from Cons.prems(1) have w0: "\<not> write_fails ev n"
    and ws: "\<forall>j<length is. \<not> write_fails ev (Suc n + j)"
    by auto
  from R w0 Cons.prems(2) obtain row s' where g: "generate_row R (rng st) = Inr (row, s')"
    and b: "loop_body ev R i (writer_at p n, st) =
       (None, writer_at p (Suc n),
        st\<lparr>rng := s', files := (files st)(p \<mapsto> old @ join '';'' row @ [CR, LF])\<rparr>)"
    by (rule loop_body_ok)
  define st1 where
    "st1 = st\<lparr>rng := s', files := (files st)(p \<mapsto> old @ join '';'' row @ [CR, LF])\<rparr>"
  have f1: "files st1 p = Some (old @ join '';'' row @ [CR, LF])" by (simp add: st1_def)
  from Cons.IH [OF ws f1] obtain rows st' where
    r: "for_loop ev R is (writer_at p (Suc n), st1)
          = (None, writer_at p (Suc n + length is), st')"
      "length rows = length is"
      "\<forall>row\<in>set rows. \<exists>s s'. generate_row R s = Inr (row, s')"
      "files st' = (files st1)(p \<mapsto> (old @ join '';'' row @ [CR, LF])
          @ concat (map (\<lambda>row. join '';'' row @ [CR, LF]) rows))"
      "stdout st' = stdout st1"
    by blast
  from b r(1) have "for_loop ev R (i # is) (writer_at p n, st)
      = (None, writer_at p (n + length (i # is)), st')"
    by (simp add: st1_def)
  moreover from r(2) have "length (row # rows) = length (i # is)" by simp
  moreover from g r(3) have "\<forall>row\<in>set (row # rows). \<exists>s s'. generate_row R s = Inr (row, s')"
    by auto
  moreover from r(4) have "files st' = (files st)(p \<mapsto> old
        @ concat (map (\<lambda>row. join '';'' row @ [CR, LF]) (row # rows)))"
    by (simp add: st1_def)
  moreover from r(5) have "stdout st' = stdout st" by (simp add: st1_def)
  ultimately show ?case by blast
qed

lemma for_loop_fail:
  assumes R: "randint_contract R"
    and w: "j < length is" "write_fails ev (n + j)"
  shows "\<exists>x. for_loop ev R is (writer_at p n, st) = (Some OSError, x)"
  using w
proof (induction "is" arbitrary: n st j)
  case Nil
  then show ?case by simp
next
  case (Cons i "is")
  show ?case
  proof (cases "write_fails ev n")
    case True
    from loop_body_fail [OF R True, of i p st] show ?thesis by auto
  next
    case False
    with Cons.prems obtain j' where j: "j = Suc j'" by (cases j) auto
    from R obtain row s' where g: "generate_row R (rng st) = Inr (row, s')"
      by (rule generate_row_shape [of R "rng st"])
    with False have b: "\<exists>st1. loop_body ev R i (writer_at p n, st) = (None, writer_at p (Suc n), st1)"
      by (simp add: loop_body_def writerow_at)
    then obtain st1 where b1: "loop_body ev R i (writer_at p n, st) = (None, writer_at p (Suc n), st1)" ..
    from Cons.prems j have "j' < length is" "write_fails ev (Suc n + j')" by simp_all
    from Cons.IH [OF this, of st1] b1 show ?thesis by simp
  qed
qed

lemma for_loop_frame:
  "\<exists>r n' st'. for_loop ev R is (writer_at p n, st) = (r, writer_at p n', st')
     \<and> stdout st' = stdout st \<and> (\<forall>q. q \<noteq> p \<longrightarrow> files st' q = files st q)
     \<and> (files st p \<noteq> None \<longrightarrow> files st' p \<noteq> None)"
proof (induction "is" arbitrary: n st)
  case Nil
  show ?case by auto
next
  case (Cons i "is")
  obtain r n1 st1 where b: "loop_body ev R i (writer_at p n, st) = (r, writer_at p n1, st1)"
    and fr: "stdout st1 = stdout st" "\<forall>q. q \<noteq> p \<longrightarrow> files st1 q = files st q"
      "files st p \<noteq> None \<longrightarrow> files st1 p \<noteq> None"
    by (rule loop_body_frame)
  show ?case
  proof (cases r)
    case None
    from Cons.IH [of n1 st1] obtain r' n' st' where
      l: "for_loop ev R is (writer_at p n1, st1) = (r', writer_at p n', st')"
        "stdout st' = stdout st1" "\<forall>q. q \<noteq> p \<longrightarrow> files st' q = files st1 q"
        "files st1 p \<noteq> None \<longrightarrow> files st' p \<noteq> None"
      by blast
    from b None l(1) have "for_loop ev R (i # is) (writer_at p n, st) = (r', writer_at p n', st')"
      by simp
    with l(2-) fr show ?thesis by auto
  next
    case (Some e)
    with b have "for_loop ev R (i # is) (writer_at p n, st) = (Some e, writer_at p n1, st1)"
      by simp
    with fr show ?thesis by auto
  qed
qed

text \<open>
  The loop sees the file system only through the file it writes: two states that agree
  on the random source, on that file and on standard output are taken to such states.
\<close>

lemma loop_body_sim:
  assumes "rng a = rng b" "files a p = files b p" "stdout a = stdout b"
  shows "\<exists>r n' a' b'. loop_body ev R i (writer_at p n, a) = (r, writer_at p n', a')
     \<and> loop_body ev R i (writer_at p n, b) = (r, writer_at p n', b')
     \<and> rng a' = rng b' \<and> files a' p = files b' p \<and> stdout a' = stdout b'"
proof (cases "generate_row R (rng a)")
  case (Inl e)
  with assms show ?thesis by (auto simp add: loop_body_def)
next
  case (Inr x)
  obtain row s' where x: "x = (row, s')" by (cases x)
  from Inr x assms show ?thesis by (auto simp add: loop_body_def writerow_at)
qed

lemma for_loop_sim:
  "rng a = rng b \<Longrightarrow> files a p = files b p \<Longrightarrow> stdout a = stdout b \<Longrightarrow>
   \<exists>r n' a' b'. for_loop ev R is (writer_at p n, a) = (r, writer_at p n', a')
     \<and> for_loop ev R is (writer_at p n, b) = (r, writer_at p n', b')
     \<and> rng a' = rng b' \<and> files a' p = files b' p \<and> stdout a' = stdout b'"
proof (induction "is" arbitrary: n a b)
  case Nil
  then show ?case by auto
next
  case (Cons i "is")
  from loop_body_sim [OF Cons.prems, of ev R i n] obtain r n1 a1 b1 where
    s: "loop_body ev R i (writer_at p n, a) = (r, writer_at p n1, a1)"
      "loop_body ev R i (writer_at p n, b) = (r, writer_at p n1, b1)"
      "rng a1 = rng b1" "files a1 p = files b1 p" "stdout a1 = stdout b1"
    by blast
  show ?case
  proof (cases r)
    case None
    from Cons.IH [OF s(3-5), of n1] s(1,2) None show ?thesis by simp
  next
    case (Some e)
    with s show ?thesis by auto
  qed
qed

lemma print_outcome:
  "fst (print ev msg st) =
     (if stdout_present ev \<and> \<not> stdout_encodable ev msg then Some UnicodeEncodeError
      else if stdout_present ev \<and> stdout_write_fails ev then Some OSError
      else None)"
  by (simp add: print_def)

lemma print_result:
  "snd (print ev msg st) =
     (if fst (print ev msg st) = None \<and> stdout_present ev then st\<lparr>stdout := stdout st @ [msg]\<rparr>
      else st)"
  by (simp add: print_def)

lemma print_frame: "files (snd (print ev msg st)) = files st" "rng (snd (print ev msg st)) = rng st"
  by (simp_all add: print_def)

lemma run_unfold:
  "run ev R p N st =
     (if open_fails ev then (Some OSError, st)
      else (case for_loop ev R [0..<N] (writer_at p 0, st\<lparr>files := (files st)(p \<mapsto> [])\<rparr>) of
              (Some e, w, st2) \<Rightarrow> (Some e, st2)
            | (None, w, st2) \<Rightarrow>
                if close_fails ev then (Some OSError, st2)
                else print ev completion_message st2))"
  by (simp add: run_def open_w_def writer_at_def)

lemma run_ok:
  assumes R: "randint_contract R"
    and io: "\<not> open_fails ev" "\<forall>j<N. \<not> write_fails ev j" "\<not> close_fails ev"
  shows "\<exists>rows st'. run ev R p N st = print ev completion_message st' \<and> length rows = N
     \<and> (\<forall>row\<in>set rows. \<exists>s s'. generate_row R s = Inr (row, s'))
     \<and> files st' = (files st)(p \<mapsto> concat (map (\<lambda>row. join '';'' row @ [CR, LF]) rows))
     \<and> stdout st' = stdout st"
proof -
  let ?st1 = "st\<lparr>files := (files st)(p \<mapsto> [])\<rparr>"
  from io(2) have w: "\<forall>j<length [0..<N]. \<not> write_fails ev (0 + j)" by simp
  have f: "files ?st1 p = Some []" by simp
  from for_loop_ok [OF R w f] obtain rows st2 where
    l: "for_loop ev R [0..<N] (writer_at p 0, ?st1) = (None, writer_at p (0 + length [0..<N]), st2)"
      "length rows = length [0..<N]"
      "\<forall>row\<in>set rows. \<exists>s s'. generate_row R s = Inr (row, s')"
      "files st2 = (files ?st1)(p \<mapsto> [] @ concat (map (\<lambda>row. join '';'' row @ [CR, LF]) rows))"
      "stdout st2 = stdout ?st1"
    by blast
  from io l(1) have "run ev R p N st = print ev completion_message st2"
    by (simp add: run_unfold)
  with l(2-) show ?thesis by auto
qed

lemma run_outcome:
  assumes R: "randint_contract R"
  shows "fst (run ev R p N st) =
     (if open_fails ev \<or> (\<exists>j<N. write_fails ev j) \<or> close_fails ev then Some OSError
      else if stdout_present ev \<and> \<not> stdout_encodable ev completion_message
        then Some UnicodeEncodeError
      else if stdout_present ev \<and> stdout_write_fails ev then Some OSError
      else None)"
proof (cases "open_fails ev")
  case True
  then show ?thesis by (simp add: run_unfold)
next
  case no: False
  show ?thesis
  proof (cases "\<exists>j<N. write_fails ev j")
    case True
    then obtain j where "j < length [0..<N]" "write_fails ev (0 + j)" by auto
    from for_loop_fail [OF R this] obtain x where
      "for_loop ev R [0..<N] (writer_at p 0, st\<lparr>files := (files st)(p \<mapsto> [])\<rparr>) = (Some OSError, x)"
      by blast
    with no True show ?thesis by (simp add: run_unfold split: prod.splits)
  next
    case nw: False
    show ?thesis
    proof (cases "close_fails ev")
      case True
      from nw have w: "\<forall>j<length [0..<N]. \<not> write_fails ev (0 + j)" by simp
      have f: "files (st\<lparr>files := (files st)(p \<mapsto> [])\<rparr>) p = Some []" by simp
      from for_loop_ok [OF R w f] no True show ?thesis by (auto simp add: run_unfold)
    next
      case False
      with no nw have "\<forall>j<N. \<not> write_fails ev j" by simp
      from run_ok [OF R no this False, of p st] obtain st'
        where "run ev R p N st = print ev completion_message st'" by blast
      with no nw False show ?thesis by (simp add: print_outcome)
    qed
  qed
qed

lemma run_stdout:
  "stdout (snd (run ev R p N st)) =
     (if fst (run ev R p N st) = None \<and> stdout_present ev then stdout st @ [completion_message]
      else stdout st)"
proof -
  obtain r n' st' where "for_loop ev R [0..<N] (writer_at p 0, st\<lparr>files := (files st)(p \<mapsto> [])\<rparr>)
      = (r, writer_at p n', st')" "stdout st' = stdout (st\<lparr>files := (files st)(p \<mapsto> [])\<rparr>)"
    using for_loop_frame by blast
  then show ?thesis by (cases r) (simp_all add: run_unfold print_def)
qed

lemma run_frame:
  shows "q \<noteq> p \<Longrightarrow> files (snd (run ev R p N st)) q = files st q"
    and "\<not> open_fails ev \<Longrightarrow> files (snd (run ev R p N st)) p \<noteq> None"
    and "open_fails ev \<Longrightarrow> run ev R p N st = (Some OSError, st)"
proof -
  let ?st1 = "st\<lparr>files := (files st)(p \<mapsto> [])\<rparr>"
  obtain r n' st' where l: "for_loop ev R [0..<N] (writer_at p 0, ?st1) = (r, writer_at p n', st')"
    "\<forall>q. q \<noteq> p \<longrightarrow> files st' q = files ?st1 q" "files ?st1 p \<noteq> None \<longrightarrow> files st' p \<noteq> None"
    using for_loop_frame by blast
  show "open_fails ev \<Longrightarrow> run ev R p N st = (Some OSError, st)" by (simp add: run_unfold)
  from l show "q \<noteq> p \<Longrightarrow> files (snd (run ev R p N st)) q = files st q"
    by (cases r) (simp_all add: run_unfold print_def)
  from l show "\<not> open_fails ev \<Longrightarrow> files (snd (run ev R p N st)) p \<noteq> None"
    by (cases r) (simp_all add: run_unfold print_def)
qed

lemma run_sim:
  assumes "rng a = rng b" "stdout a = stdout b" "\<not> open_fails ev"
  shows "fst (run ev R p N a) = fst (run ev R p N b)"
    and "files (snd (run ev R p N a)) p = files (snd (run ev R p N b)) p"
proof -
  let ?a = "a\<lparr>files := (files a)(p \<mapsto> [])\<rparr>" and ?b = "b\<lparr>files := (files b)(p \<mapsto> [])\<rparr>"
  from assms have "rng ?a = rng ?b" "files ?a p = files ?b p" "stdout ?a = stdout ?b"
    by simp_all
  from for_loop_sim [OF this, of ev R "[0..<N]" 0] obtain r n' a' b' where
    s: "for_loop ev R [0..<N] (writer_at p 0, ?a) = (r, writer_at p n', a')"
      "for_loop ev R [0..<N] (writer_at p 0, ?b) = (r, writer_at p n', b')"
      "files a' p = files b' p"
    by blast
  from s assms(3) show "fst (run ev R p N a) = fst (run ev R p N b)"
    by (cases r) (simp_all add: run_unfold print_outcome)
  from s assms(3) show "files (snd (run ev R p N a)) p = files (snd (run ev R p N b)) p"
    by (cases r) (simp_all add: run_unfold print_def)
qed

subsection \<open>The file a completed run leaves\<close>

lemma run_lines:
  assumes R: "randint_contract R" and ok: "fst (run ev R p N st) = None"
  shows "\<exists>ls. files (snd (run ev R p N st)) p = Some (concat (map (\<lambda>l. l @ [CR, LF]) ls))
     \<and> length ls = N
     \<and> (\<forall>l\<in>set ls. CR \<notin> set l \<and> LF \<notin> set l \<and> length (split_at CHR '';'' l) = 6)"
proof -
  from ok have io: "\<not> open_fails ev" "\<forall>j<N. \<not> write_fails ev j" "\<not> close_fails ev"
    unfolding run_outcome [OF R] by (simp_all split: if_splits)
  from run_ok [OF R io, of p st] obtain rows st' where
    r: "run ev R p N st = print ev completion_message st'" "length rows = N"
      "\<forall>row\<in>set rows. \<exists>s s'. generate_row R s = Inr (row, s')"
      "files st' = (files st)(p \<mapsto> concat (map (\<lambda>row. join '';'' row @ [CR, LF]) rows))"
    by blast
  have "\<forall>l\<in>set (map (join '';'') rows).
      CR \<notin> set l \<and> LF \<notin> set l \<and> length (split_at CHR '';'' l) = 6"
  proof
    fix l assume "l \<in> set (map (join '';'') rows)"
    then obtain row where row: "row \<in> set rows" "l = join '';'' row" by auto
    with r(3) obtain s s' where g: "generate_row R s = Inr (row, s')" by blast
    from generated_line [OF R g] generated_row_plain(1) [OF R g] row(2)
    show "CR \<notin> set l \<and> LF \<notin> set l \<and> length (split_at CHR '';'' l) = 6" by simp
  qed
  moreover have "concat (map (\<lambda>row. join '';'' row @ [CR, LF]) rows)
      = concat (map (\<lambda>l. l @ [CR, LF]) (map (join '';'') rows))"
    by (simp add: comp_def)
  ultimately show ?thesis using r(1,2,4)
    by (intro exI [of _ "map (join '';'') rows"]) (simp add: print_frame)
qed

lemma quiet_run_ok: "fst (run quiet_env max_source p N st) = None"
  by (simp add: run_outcome [OF max_source_contract] quiet_env_def)

subsection \<open>The platform, the empty run and the example run\<close>

lemma loop_body_linesep:
  "loop_body (ev\<lparr>linesep := sep\<rparr>) R i (writer_at p n, st) = loop_body ev R i (writer_at p n, st)"
  by (simp add: loop_body_def writerow_at split: sum.splits)

lemma for_loop_linesep:
  "for_loop (ev\<lparr>linesep := sep\<rparr>) R is (writer_at p n, st) = for_loop ev R is (writer_at p n, st)"
proof (induction "is" arbitrary: n st)
  case Nil
  show ?case by simp
next
  case (Cons i "is")
  obtain r n1 st1 where b: "loop_body ev R i (writer_at p n, st) = (r, writer_at p n1, st1)"
    by (rule loop_body_frame)
  with Cons.IH [of n1 st1] show ?case by (cases r) (simp_all add: loop_body_linesep)
qed

lemma run_linesep: "run (ev\<lparr>linesep := sep\<rparr>) R p N st = run ev R p N st"
  by (simp add: run_unfold for_loop_linesep print_def split: prod.splits option.splits)

lemma run_zero:
  "run ev R p 0 st =
     (if open_fails ev then (Some OSError, st)
      else if close_fails ev then (Some OSError, st\<lparr>files := (files st)(p \<mapsto> [])\<rparr>)
      else print ev completion_message (st\<lparr>files := (files st)(p \<mapsto> [])\<rparr>))"
  by (simp add: run_unfold)

lemma run_42:
  "run quiet_env mock42 p 1 st0 =
     (None, st0\<lparr>files := (files st0)(p \<mapsto>
               ''2000-01-01;Name42;Surname42;Patronymic42;City42;Country42'' @ [CR, LF]),
             stdout := [completion_message]\<rparr>)"
  by (simp add: run_unfold quiet_env_def st0_def loop_body_def g_42 writerow_at print_def
        row_text_def quote_field_def special_char_def excel_def CR_def LF_def)

lemma line_42:
  "crlf_lines (''2000-01-01;Name42;Surname42;Patronymic42;City42;Country42'' @ [CR, LF])
     = [''2000-01-01;Name42;Surname42;Patronymic42;City42;Country42'']"
  using crlf_lines_append [of "''2000-01-01;Name42;Surname42;Patronymic42;City42;Country42''" "[]"]
  by (simp add: CR_def)

text \<open>
  Two facts that show what the script relies on. A draw outside the contract can make
  the date arithmetic overflow; and a file opened without \<^verbatim>\<open>newline=''\<close> on a platform
  whose line separator is CR LF would end each row with CR CR LF.
\<close>

lemma generate_row_overflow: "generate_row (\<lambda>a b s. (3000000, s)) () = Inl OverflowError"
  by (simp add: generate_row_def epoch_facts(1,3) randint_def timedelta_days_def
        datetime_add_def MAXORDINAL_def)

lemma newline_none_translates:
  "LF \<notin> set l \<Longrightarrow> CR \<notin> set l \<Longrightarrow>
     translate_newlines NewlineNone [CR, LF] (l @ [CR, LF]) = l @ [CR, CR, LF]"
proof -
  assume "LF \<notin> set l" "CR \<notin> set l"
  then have "concat (map (\<lambda>c. if c = LF then [CR, LF] else [c]) l) = l"
    by (induction l) auto
  moreover have "CR \<noteq> LF" by (simp add: CR_def LF_def)
  ultimately show ?thesis by (simp add: translate_newlines_def)
qed

section \<open>The properties of the specification\<close>

text \<open>
  C1: for every record count N, every random source within the contract of \<^verbatim>\<open>randint\<close>
  and every run that completes (no I/O failure aborts it), the output file holds exactly
  N lines (each ended by CR LF), and every line splits at the semicolons into exactly 6
  fields. The script is the run with N = 1000000 (\<open>main\<close>).
\<close>

theorem row_count:
  assumes "randint_contract R" and "fst (run ev R p N st) = None"
  shows "(\<exists>content. files (snd (run ev R p N st)) p = Some content
       \<and> length (crlf_lines content) = N
       \<and> (\<forall>l\<in>set (crlf_lines content). length (split_at CHR '';'' l) = 6))
     \<and> main ev R st = run ev R ''test_large.csv'' 1000000 st"
proof -
  from run_lines [OF assms] obtain ls where
    ls: "files (snd (run ev R p N st)) p = Some (concat (map (\<lambda>l. l @ [CR, LF]) ls))"
      "length ls = N"
      "\<forall>l\<in>set ls. CR \<notin> set l \<and> LF \<notin> set l \<and> length (split_at CHR '';'' l) = 6"
    by blast
  from ls(3) have "crlf_lines (concat (map (\<lambda>l. l @ [CR, LF]) ls)) = ls"
    by (intro crlf_lines_concat) simp
  with ls show ?thesis by (simp add: main_def)
qed

theorem row_count_witness:
  "randint_contract max_source
   \<and> fst (run quiet_env max_source ''test_large.csv'' 3 st0) = None
   \<and> (\<exists>content. files (snd (run quiet_env max_source ''test_large.csv'' 3 st0))
                   ''test_large.csv'' = Some content
     \<and> length (crlf_lines content) = 3
     \<and> (\<forall>l\<in>set (crlf_lines content). length (split_at CHR '';'' l) = 6))
   \<and> main quiet_env max_source st0 = run quiet_env max_source ''test_large.csv'' 1000000 st0"
  using row_count [OF max_source_contract quiet_run_ok, of "''test_large.csv''" 3 st0]
    max_source_contract quiet_run_ok [of "''test_large.csv''" 3 st0]
  by (simp add: main_def)

text \<open>
  C2 (as stated, refuted): the source that always draws the upper bound is within the
  contract of \<^verbatim>\<open>randint\<close>, and with it the first field is \<^verbatim>\<open>2021-11-26\<close>, the 8000th day
  after the epoch, which lies after 2021-11-17.
\<close>

theorem date_field_counterexample:
  "randint_contract max_source
   \<and> generate_row max_source () =
       Inr ([''2021-11-26'', ''Name1000000'', ''Surname1000000'', ''Patronymic1000000'',
             ''City1000'', ''Country100''], ())
   \<and> \<not> date_le (parse_ymd ''2021-11-26'') \<lparr>year = 2021, month = 11, day = 17\<rparr>"
  by (simp add: max_source_contract g_max parse_ex date_le_def)

text \<open>
  C2 (amended): for every random source within the contract of \<^verbatim>\<open>randint\<close> and every
  state of it, a record is generated, its first field matches \<^verbatim>\<open>^\d{4}-\d{2}-\d{2}$\<close>,
  and the date it denotes is a valid calendar date, is the epoch 2000-01-01 plus the
  drawn whole-day offset (which is between 0 and 8000), and lies within
  [2000-01-01, 2021-11-26] inclusive.
\<close>

theorem date_field:
  assumes "randint_contract R"
  shows "\<exists>row s'. generate_row R s = Inr (row, s') \<and> row \<noteq> []
           \<and> matches_date_re (hd row)
           \<and> valid_date (parse_ymd (hd row))
           \<and> 0 \<le> fst (R 0 8000 s) \<and> fst (R 0 8000 s) \<le> 8000
           \<and> toordinal (parse_ymd (hd row))
               = toordinal \<lparr>year = 2000, month = 1, day = 1\<rparr> + fst (R 0 8000 s)
           \<and> date_le \<lparr>year = 2000, month = 1, day = 1\<rparr> (parse_ymd (hd row))
           \<and> date_le (parse_ymd (hd row)) \<lparr>year = 2021, month = 11, day = 26\<rparr>"
proof -
  from assms obtain k n1 n2 n3 n4 n5 dt s1 s' where
    row: "generate_row R s =
       Inr ([strftime_ymd dt, ''Name'' @ py_str n1, ''Surname'' @ py_str n2,
             ''Patronymic'' @ py_str n3, ''City'' @ py_str n4, ''Country'' @ py_str n5], s')"
    and k: "R 0 8000 s = (k, s1)" "0 \<le> k" "k \<le> 8000"
    and dt: "valid_date dt" "toordinal dt = 730120 + k"
      "date_le \<lparr>year = 2000, month = 1, day = 1\<rparr> dt"
      "date_le dt \<lparr>year = 2021, month = 11, day = 26\<rparr>"
    by (rule generate_row_shape [of R s])
  from dt(1) have "matches_date_re (strftime_ymd dt)" "parse_ymd (strftime_ymd dt) = dt"
    by (rule strftime_matches, rule strftime_parse)
  with row k dt show ?thesis by (simp add: epoch_facts)
qed

theorem date_field_witness:
  "randint_contract max_source
   \<and> (\<exists>row s'. generate_row max_source () = Inr (row, s') \<and> row \<noteq> []
           \<and> matches_date_re (hd row)
           \<and> valid_date (parse_ymd (hd row))
           \<and> 0 \<le> fst (max_source 0 8000 ()) \<and> fst (max_source 0 8000 ()) \<le> 8000
           \<and> toordinal (parse_ymd (hd row))
               = toordinal \<lparr>year = 2000, month = 1, day = 1\<rparr> + fst (max_source 0 8000 ())
           \<and> date_le \<lparr>year = 2000, month = 1, day = 1\<rparr> (parse_ymd (hd row))
           \<and> date_le (parse_ymd (hd row)) \<lparr>year = 2021, month = 11, day = 26\<rparr>)"
  using date_field [OF max_source_contract, of "()"] max_source_contract by simp

text \<open>
  C3: for every random source within the contract and every state of it, fields 2 to 6
  of the generated record are the prefixes \<^verbatim>\<open>Name\<close>, \<^verbatim>\<open>Surname\<close>, \<^verbatim>\<open>Patronymic\<close>,
  \<^verbatim>\<open>City\<close>, \<^verbatim>\<open>Country\<close> followed by the decimal rendering of the second to sixth draw,
  which lie in [1,1000000], [1,1000000], [1,1000000], [1,1000] and [1,100]; each field
  matches its pattern (prefix, then one or more digits) and the integer read back from
  it is the draw.
\<close>

theorem name_fields:
  assumes "randint_contract R"
  shows "\<exists>k s1 n1 s2 n2 s3 n3 s4 n4 s5 n5 s' d.
           R 0 8000 s = (k, s1) \<and> R 1 1000000 s1 = (n1, s2) \<and> R 1 1000000 s2 = (n2, s3)
           \<and> R 1 1000000 s3 = (n3, s4) \<and> R 1 1000 s4 = (n4, s5) \<and> R 1 100 s5 = (n5, s')
           \<and> generate_row R s =
               Inr ([d, ''Name'' @ py_str n1, ''Surname'' @ py_str n2,
                     ''Patronymic'' @ py_str n3, ''City'' @ py_str n4,
                     ''Country'' @ py_str n5], s')
           \<and> 1 \<le> n1 \<and> n1 \<le> 1000000 \<and> 1 \<le> n2 \<and> n2 \<le> 1000000
           \<and> 1 \<le> n3 \<and> n3 \<le> 1000000 \<and> 1 \<le> n4 \<and> n4 \<le> 1000 \<and> 1 \<le> n5 \<and> n5 \<le> 100
           \<and> matches_prefix_digits ''Name'' (''Name'' @ py_str n1)
           \<and> embedded_int ''Name'' (''Name'' @ py_str n1) = n1
           \<and> matches_prefix_digits ''Surname'' (''Surname'' @ py_str n2)
           \<and> embedded_int ''Surname'' (''Surname'' @ py_str n2) = n2
           \<and> matches_prefix_digits ''Patronymic'' (''Patronymic'' @ py_str n3)
           \<and> embedded_int ''Patronymic'' (''Patronymic'' @ py_str n3) = n3
           \<and> matches_prefix_digits ''City'' (''City'' @ py_str n4)
           \<and> embedded_int ''City'' (''City'' @ py_str n4) = n4
           \<and> matches_prefix_digits ''Country'' (''Country'' @ py_str n5)
           \<and> embedded_int ''Country'' (''Country'' @ py_str n5) = n5"
proof -
  from assms obtain k n1 n2 n3 n4 n5 dt s1 s2 s3 s4 s5 s' where
    row: "generate_row R s =
       Inr ([strftime_ymd dt, ''Name'' @ py_str n1, ''Surname'' @ py_str n2,
             ''Patronymic'' @ py_str n3, ''City'' @ py_str n4, ''Country'' @ py_str n5], s')"
    and draws: "R 0 8000 s = (k, s1)" "R 1 1000000 s1 = (n1, s2)" "R 1 1000000 s2 = (n2, s3)"
      "R 1 1000000 s3 = (n3, s4)" "R 1 1000 s4 = (n4, s5)" "R 1 100 s5 = (n5, s')"
    and r: "1 \<le> n1" "n1 \<le> 1000000" "1 \<le> n2" "n2 \<le> 1000000" "1 \<le> n3" "n3 \<le> 1000000"
      "1 \<le> n4" "n4 \<le> 1000" "1 \<le> n5" "n5 \<le> 100"
    by (rule generate_row_shape [of R s])
  from r have nn: "0 \<le> n1" "0 \<le> n2" "0 \<le> n3" "0 \<le> n4" "0 \<le> n5" by simp_all
  note pf = nn [THEN prefixed_field(1)] nn [THEN prefixed_field(2)]
  show ?thesis
    apply (rule exI [of _ k], rule exI [of _ s1], rule exI [of _ n1], rule exI [of _ s2])
    apply (rule exI [of _ n2], rule exI [of _ s3], rule exI [of _ n3], rule exI [of _ s4])
    apply (rule exI [of _ n4], rule exI [of _ s5], rule exI [of _ n5], rule exI [of _ s'])
    apply (rule exI [of _ "strftime_ymd dt"])
    using row draws r by (simp only: pf simp_thms)
qed

theorem name_fields_witness:
  "randint_contract max_source
   \<and> (\<exists>d. generate_row max_source () =
         Inr ([d, ''Name'' @ py_str 1000000, ''Surname'' @ py_str 1000000,
               ''Patronymic'' @ py_str 1000000, ''City'' @ py_str 1000,
               ''Country'' @ py_str 100], ()))
   \<and> matches_prefix_digits ''Name'' (''Name'' @ py_str 1000000)
   \<and> embedded_int ''Country'' (''Country'' @ py_str 100) = 100"
  using name_fields [OF max_source_contract, of "()"] max_source_contract
  by (auto simp add: max_source_def)

text \<open>
  C4: with record count 1 and the mocked random source that returns 0 for the day-offset
  draw and 42 for every other draw, the generated record is
  (2000-01-01, Name42, Surname42, Patronymic42, City42, Country42), the run completes,
  and the output file holds the single line
  \<^verbatim>\<open>2000-01-01;Name42;Surname42;Patronymic42;City42;Country42\<close>, ended by CR LF.
\<close>

theorem example_run:
  "generate_row mock42 () =
     Inr ([''2000-01-01'', ''Name42'', ''Surname42'', ''Patronymic42'', ''City42'',
           ''Country42''], ())
   \<and> fst (run quiet_env mock42 ''test_large.csv'' 1 st0) = None
   \<and> files (snd (run quiet_env mock42 ''test_large.csv'' 1 st0)) ''test_large.csv''
       = Some (''2000-01-01;Name42;Surname42;Patronymic42;City42;Country42'' @ [CR, LF])
   \<and> crlf_lines (''2000-01-01;Name42;Surname42;Patronymic42;City42;Country42'' @ [CR, LF])
       = [''2000-01-01;Name42;Surname42;Patronymic42;City42;Country42'']"
  by (simp only: g_42 run_42 line_42 fst_conv snd_conv simp_thms) simp

text \<open>
  C5: for every random source within the contract and every state of it, no field of
  the generated record holds the semicolon, a carriage return, a line feed (or the quote
  character), so the writer quotes no field and the text it writes for the row is the
  six fields joined by semicolons, followed by the line terminator.
\<close>

theorem no_quoting:
  assumes "randint_contract R"
  shows "\<exists>row s'. generate_row R s = Inr (row, s')
     \<and> (\<forall>f\<in>set row. CHR '';'' \<notin> set f \<and> CR \<notin> set f \<and> LF \<notin> set f \<and> CHR 0x22 \<notin> set f)
     \<and> map (quote_field (excel\<lparr>delimiter := CHR '';''\<rparr>)) row = row
     \<and> row_text (excel\<lparr>delimiter := CHR '';''\<rparr>) row = join '';'' row @ [CR, LF]"
proof -
  from assms obtain row s' where g: "generate_row R s = Inr (row, s')"
    by (rule generate_row_shape [of R s])
  note p = generated_row_plain(2) [OF assms g]
  from p have "\<forall>f\<in>set row. \<forall>c\<in>set f. \<not> special_char (excel\<lparr>delimiter := CHR '';''\<rparr>) c"
    by (simp add: special_char_semicolon)
  then have "map (quote_field (excel\<lparr>delimiter := CHR '';''\<rparr>)) row = row"
    by (intro map_idI) (simp add: quote_field_plain)
  moreover from p
  have "\<forall>f\<in>set row. CHR '';'' \<notin> set f \<and> CR \<notin> set f \<and> LF \<notin> set f \<and> CHR 0x22 \<notin> set f"
    by blast
  ultimately show ?thesis using g generated_row_text [OF assms g] by blast
qed

theorem no_quoting_witness:
  "randint_contract max_source
   \<and> (\<exists>row s'. generate_row max_source () = Inr (row, s')
     \<and> (\<forall>f\<in>set row. CHR '';'' \<notin> set f \<and> CR \<notin> set f \<and> LF \<notin> set f \<and> CHR 0x22 \<notin> set f)
     \<and> map (quote_field (excel\<lparr>delimiter := CHR '';''\<rparr>)) row = row
     \<and> row_text (excel\<lparr>delimiter := CHR '';''\<rparr>) row = join '';'' row @ [CR, LF])"
  using no_quoting [OF max_source_contract, of "()"] max_source_contract by simp

text \<open>
  C6: when the tool is run twice on the same path and the second run completes, the
  file at the path afterwards is what the second run alone writes (the same as if it had
  started on an empty file system: nothing of the first run is kept or appended to), it
  holds exactly the N lines of the second run, and the two runs have created no file
  other than the one at the path.
\<close>

theorem overwrite:
  assumes "randint_contract R'"
    and "fst (run ev' R' p N (snd (run ev R p M st))) = None"
  shows "files (snd (run ev' R' p N (snd (run ev R p M st)))) p
           = files (snd (run ev' R' p N ((snd (run ev R p M st))\<lparr>files := Map.empty\<rparr>))) p
     \<and> dom (files (snd (run ev' R' p N (snd (run ev R p M st))))) = insert p (dom (files st))
     \<and> (\<exists>content. files (snd (run ev' R' p N (snd (run ev R p M st)))) p = Some content
           \<and> length (crlf_lines content) = N)"
proof -
  define st1 where "st1 = snd (run ev R p M st)"
  define st2 where "st2 = snd (run ev' R' p N st1)"
  from assms(2) have ok: "fst (run ev' R' p N st1) = None" by (simp add: st1_def)
  then have op: "\<not> open_fails ev'"
    unfolding run_outcome [OF assms(1)] by (simp split: if_splits)
  have "files st2 p = files (snd (run ev' R' p N (st1\<lparr>files := Map.empty\<rparr>))) p"
    unfolding st2_def by (rule run_sim(2)) (simp_all add: op)
  moreover have "dom (files st2) = insert p (dom (files st))"
  proof -
    have other: "files st2 q = files st q" if "q \<noteq> p" for q
      using that by (simp add: st2_def st1_def run_frame(1))
    from op have here: "files st2 p \<noteq> None" unfolding st2_def by (rule run_frame(2))
    have "q \<in> dom (files st2) \<longleftrightarrow> q \<in> insert p (dom (files st))" for q
    proof (cases "q = p")
      case True
      with here show ?thesis by (simp add: domIff)
    next
      case False
      with other [OF False] show ?thesis by (simp add: domIff)
    qed
    then show ?thesis by blast
  qed
  moreover have "\<exists>content. files st2 p = Some content \<and> length (crlf_lines content) = N"
  proof -
    from run_lines [OF assms(1) ok] obtain ls where
      ls: "files st2 p = Some (concat (map (\<lambda>l. l @ [CR, LF]) ls))" "length ls = N"
        "\<forall>l\<in>set ls. CR \<notin> set l \<and> LF \<notin> set l \<and> length (split_at CHR '';'' l) = 6"
      unfolding st2_def by blast
    from ls(3) have "crlf_lines (concat (map (\<lambda>l. l @ [CR, LF]) ls)) = ls"
      by (intro crlf_lines_concat) simp
    with ls show ?thesis by simp
  qed
  ultimately show ?thesis unfolding st2_def st1_def by blast
qed

theorem overwrite_witness:
  "randint_contract max_source
   \<and> fst (run quiet_env max_source ''test_large.csv'' 1
            (snd (run quiet_env max_source ''test_large.csv'' 2 st0))) = None
   \<and> dom (files (snd (run quiet_env max_source ''test_large.csv'' 1
            (snd (run quiet_env max_source ''test_large.csv'' 2 st0))))) = {''test_large.csv''}
   \<and> (\<exists>content. files (snd (run quiet_env max_source ''test_large.csv'' 1
            (snd (run quiet_env max_source ''test_large.csv'' 2 st0)))) ''test_large.csv''
          = Some content \<and> length (crlf_lines content) = 1)"
proof -
  have ok: "fst (run quiet_env max_source ''test_large.csv'' 1
            (snd (run quiet_env max_source ''test_large.csv'' 2 st0))) = None"
    by (rule quiet_run_ok)
  note o = overwrite [OF max_source_contract ok]
  from o have "dom (files (snd (run quiet_env max_source ''test_large.csv'' 1
            (snd (run quiet_env max_source ''test_large.csv'' 2 st0)))))
      = insert ''test_large.csv'' (dom (files st0))"
    by (rule conjunct1 [OF conjunct2])
  then have d: "dom (files (snd (run quiet_env max_source ''test_large.csv'' 1
            (snd (run quiet_env max_source ''test_large.csv'' 2 st0))))) = {''test_large.csv''}"
    by (simp add: st0_def)
  from o have e: "\<exists>content. files (snd (run quiet_env max_source ''test_large.csv'' 1
            (snd (run quiet_env max_source ''test_large.csv'' 2 st0)))) ''test_large.csv''
          = Some content \<and> length (crlf_lines content) = 1"
    by (rule conjunct2 [OF conjunct2])
  from max_source_contract ok d e show ?thesis by (intro conjI)
qed

text \<open>
  C7 (as stated, refuted): a run with no record, no file failure and no standard output
  completes (nothing is raised) and prints nothing; and on a standard output with the
  encoding \<^verbatim>\<open>ascii\<close>, which cannot encode the message, the file is opened, left empty and
  closed, and then \<^verbatim>\<open>print\<close> raises \<^verbatim>\<open>UnicodeEncodeError\<close>: the loop has finished and the
  destination is closed, yet no message is emitted.
\<close>

theorem completion_message_counterexample:
  "fst (run (quiet_env\<lparr>stdout_present := False\<rparr>) max_source ''test_large.csv'' 0 st0) = None
   \<and> stdout (snd (run (quiet_env\<lparr>stdout_present := False\<rparr>) max_source
                ''test_large.csv'' 0 st0)) = []
   \<and> \<not> ascii_encodable completion_message
   \<and> fst (run (quiet_env\<lparr>stdout_encodable := ascii_encodable\<rparr>) max_source
            ''test_large.csv'' 0 st0) = Some UnicodeEncodeError
   \<and> files (snd (run (quiet_env\<lparr>stdout_encodable := ascii_encodable\<rparr>) max_source
                ''test_large.csv'' 0 st0)) ''test_large.csv'' = Some []
   \<and> stdout (snd (run (quiet_env\<lparr>stdout_encodable := ascii_encodable\<rparr>) max_source
                ''test_large.csv'' 0 st0)) = []"
proof -
  have a: "\<not> ascii_encodable completion_message"
    by (simp add: ascii_encodable_def completion_message_def)
  then show ?thesis
    by (simp add: run_zero print_def quiet_env_def st0_def)
qed

text \<open>
  C7 (amended): the completion message is printed, once, exactly when the run completes
  and the process has a standard output: what has arrived on standard output gains the
  message in that case and is unchanged otherwise. Under the contract of \<^verbatim>\<open>randint\<close> the
  run completes exactly when neither opening, nor one of the N writes, nor closing
  fails, and, if there is a standard output, it can encode the message and the write to
  it succeeds; otherwise the run raises \<^verbatim>\<open>OSError\<close> or \<^verbatim>\<open>UnicodeEncodeError\<close>. The message
  is printed after the loop and the closing of the file: with N = 0 the run opens the
  file, leaves it empty, closes it and then prints, so that without any failure, on a
  standard output that takes the message, the file is empty and the message is printed.
\<close>

theorem completion_message_printed:
  assumes "randint_contract R"
  shows "stdout (snd (run ev R p N st))
           = (if fst (run ev R p N st) = None \<and> stdout_present ev
              then stdout st @ [completion_message] else stdout st)
     \<and> (fst (run ev R p N st) = None)
         = (\<not> open_fails ev \<and> (\<forall>j<N. \<not> write_fails ev j) \<and> \<not> close_fails ev
            \<and> (stdout_present ev
                 \<longrightarrow> stdout_encodable ev completion_message \<and> \<not> stdout_write_fails ev))
     \<and> fst (run ev R p N st) \<in> {None, Some OSError, Some UnicodeEncodeError}
     \<and> run ev R p 0 st
         = (if open_fails ev then (Some OSError, st)
            else if close_fails ev then (Some OSError, st\<lparr>files := (files st)(p \<mapsto> [])\<rparr>)
            else print ev completion_message (st\<lparr>files := (files st)(p \<mapsto> [])\<rparr>))
     \<and> (\<not> open_fails ev \<and> \<not> close_fails ev \<and> stdout_present ev
          \<and> stdout_encodable ev completion_message \<and> \<not> stdout_write_fails ev
        \<longrightarrow> run ev R p 0 st
             = (None, st\<lparr>files := (files st)(p \<mapsto> []),
                         stdout := stdout st @ [completion_message]\<rparr>))"
proof (intro conjI impI)
  show "stdout (snd (run ev R p N st))
           = (if fst (run ev R p N st) = None \<and> stdout_present ev
              then stdout st @ [completion_message] else stdout st)"
    by (rule run_stdout)
  show "(fst (run ev R p N st) = None)
         = (\<not> open_fails ev \<and> (\<forall>j<N. \<not> write_fails ev j) \<and> \<not> close_fails ev
            \<and> (stdout_present ev
                 \<longrightarrow> stdout_encodable ev completion_message \<and> \<not> stdout_write_fails ev))"
    unfolding run_outcome [OF assms] by auto
  show "fst (run ev R p N st) \<in> {None, Some OSError, Some UnicodeEncodeError}"
    unfolding run_outcome [OF assms] by simp
  show "run ev R p 0 st
         = (if open_fails ev then (Some OSError, st)
            else if close_fails ev then (Some OSError, st\<lparr>files := (files st)(p \<mapsto> [])\<rparr>)
            else print ev completion_message (st\<lparr>files := (files st)(p \<mapsto> [])\<rparr>))"
    by (rule run_zero)
next
  assume "\<not> open_fails ev \<and> \<not> close_fails ev \<and> stdout_present ev
          \<and> stdout_encodable ev completion_message \<and> \<not> stdout_write_fails ev"
  then show "run ev R p 0 st
             = (None, st\<lparr>files := (files st)(p \<mapsto> []),
                         stdout := stdout st @ [completion_message]\<rparr>)"
    by (simp add: run_zero print_def)
qed

theorem completion_message_printed_witness:
  "randint_contract max_source
   \<and> stdout (snd (run quiet_env max_source ''test_large.csv'' 2 st0)) = [completion_message]
   \<and> fst (run quiet_env max_source ''test_large.csv'' 2 st0) = None
   \<and> stdout (snd (run (quiet_env\<lparr>write_fails := \<lambda>k. k = 1\<rparr>) max_source
                ''test_large.csv'' 2 st0)) = []
   \<and> fst (run (quiet_env\<lparr>write_fails := \<lambda>k. k = 1\<rparr>) max_source ''test_large.csv'' 2 st0)
       \<noteq> None
   \<and> run quiet_env max_source ''test_large.csv'' 0 st0
       = (None, st0\<lparr>files := (files st0)(''test_large.csv'' \<mapsto> []),
                    stdout := [completion_message]\<rparr>)"
proof -
  note c = max_source_contract
  let ?F = "quiet_env\<lparr>write_fails := \<lambda>k. k = 1\<rparr>"
  note T = completion_message_printed [OF c, of quiet_env "''test_large.csv''" 2 st0]
  note F = completion_message_printed [OF c, of ?F "''test_large.csv''" 2 st0]
  note Z = completion_message_printed [OF c, of quiet_env "''test_large.csv''" 0 st0]
  have q: "\<not> open_fails quiet_env" "\<not> close_fails quiet_env" "stdout_present quiet_env"
    "stdout_encodable quiet_env completion_message" "\<not> stdout_write_fails quiet_env"
    "\<forall>j<2. \<not> write_fails quiet_env j"
    by (simp_all add: quiet_env_def)
  from T have "(fst (run quiet_env max_source ''test_large.csv'' 2 st0) = None)
      = (\<not> open_fails quiet_env \<and> (\<forall>j<2. \<not> write_fails quiet_env j)
         \<and> \<not> close_fails quiet_env
         \<and> (stdout_present quiet_env
              \<longrightarrow> stdout_encodable quiet_env completion_message
                \<and> \<not> stdout_write_fails quiet_env))"
    by (rule conjunct1 [OF conjunct2])
  with q have t: "fst (run quiet_env max_source ''test_large.csv'' 2 st0) = None"
    by blast
  from T have "stdout (snd (run quiet_env max_source ''test_large.csv'' 2 st0))
      = (if fst (run quiet_env max_source ''test_large.csv'' 2 st0) = None
            \<and> stdout_present quiet_env
         then stdout st0 @ [completion_message] else stdout st0)"
    by (rule conjunct1)
  with t q(3) have t': "stdout (snd (run quiet_env max_source ''test_large.csv'' 2 st0))
      = [completion_message]"
    by (simp add: st0_def)
  have "write_fails ?F 1" "(1::nat) < 2" by simp_all
  then have nf: "\<not> (\<forall>j<2. \<not> write_fails ?F j)" by blast
  from F have "(fst (run ?F max_source ''test_large.csv'' 2 st0) = None)
      = (\<not> open_fails ?F \<and> (\<forall>j<2. \<not> write_fails ?F j) \<and> \<not> close_fails ?F
         \<and> (stdout_present ?F
              \<longrightarrow> stdout_encodable ?F completion_message \<and> \<not> stdout_write_fails ?F))"
    by (rule conjunct1 [OF conjunct2])
  with nf have f: "fst (run ?F max_source ''test_large.csv'' 2 st0) \<noteq> None" by blast
  from F have "stdout (snd (run ?F max_source ''test_large.csv'' 2 st0))
      = (if fst (run ?F max_source ''test_large.csv'' 2 st0) = None \<and> stdout_present ?F
         then stdout st0 @ [completion_message] else stdout st0)"
    by (rule conjunct1)
  with f have f': "stdout (snd (run ?F max_source ''test_large.csv'' 2 st0)) = []"
    by (simp add: st0_def)
  from Z have "\<not> open_fails quiet_env \<and> \<not> close_fails quiet_env \<and> stdout_present quiet_env
          \<and> stdout_encodable quiet_env completion_message \<and> \<not> stdout_write_fails quiet_env
        \<longrightarrow> run quiet_env max_source ''test_large.csv'' 0 st0
             = (None, st0\<lparr>files := (files st0)(''test_large.csv'' \<mapsto> []),
                         stdout := stdout st0 @ [completion_message]\<rparr>)"
    by (rule conjunct2 [OF conjunct2 [OF conjunct2 [OF conjunct2]]])
  with q have "run quiet_env max_source ''test_large.csv'' 0 st0
             = (None, st0\<lparr>files := (files st0)(''test_large.csv'' \<mapsto> []),
                         stdout := stdout st0 @ [completion_message]\<rparr>)"
    by blast
  then have z: "run quiet_env max_source ''test_large.csv'' 0 st0
       = (None, st0\<lparr>files := (files st0)(''test_large.csv'' \<mapsto> []),
                    stdout := [completion_message]\<rparr>)"
    by (simp add: st0_def)
  from c t' t f' f z show ?thesis by (intro conjI)
qed

text \<open>
  C8: the body of the loop does not depend on the loop variable: from the same writer
  and the same state (so the same state of the random source), any two iteration
  indices give the same outcome, hence the same six field values.
\<close>

theorem loop_body_index_independent: "loop_body ev R i ws = loop_body ev R j ws"
  by (simp add: loop_body_def)

text \<open>
  C9: under the contract of \<^verbatim>\<open>randint\<close>, record generation raises nothing: every draw
  on a non-empty range returns a value of the range, the epoch is a valid date, every
  offset from 0 to 8000 days makes a timedelta and adding it to the epoch gives a date,
  and \<open>generate_row\<close> returns a row of six fields from every state of the source.
\<close>

theorem generation_total:
  assumes "randint_contract R"
  shows "(\<forall>a b s. a \<le> b \<longrightarrow> (\<exists>n s'. randint R a b s = Inr (n, s') \<and> a \<le> n \<and> n \<le> b))
     \<and> datetime_new 2000 1 1 = Inr \<lparr>year = 2000, month = 1, day = 1\<rparr>
     \<and> (\<forall>k. 0 \<le> k \<and> k \<le> 8000 \<longrightarrow> timedelta_days k = Inr k
            \<and> (\<exists>dt. datetime_add \<lparr>year = 2000, month = 1, day = 1\<rparr> k = Inr dt))
     \<and> (\<forall>s. \<exists>row s'. generate_row R s = Inr (row, s') \<and> length row = 6)"
proof (intro conjI allI impI)
  fix a b :: int and s
  assume "a \<le> b"
  with assms show "\<exists>n s'. randint R a b s = Inr (n, s') \<and> a \<le> n \<and> n \<le> b"
    by (rule contract_draw [of R a b s]) blast
next
  show "datetime_new 2000 1 1 = Inr \<lparr>year = 2000, month = 1, day = 1\<rparr>"
    by (rule epoch_facts)
next
  fix k :: int
  assume "0 \<le> k \<and> k \<le> 8000"
  then show "timedelta_days k = Inr k" by (simp add: timedelta_days_def)
next
  fix k :: int
  assume "0 \<le> k \<and> k \<le> 8000"
  then have "0 \<le> k" "k \<le> 8000" by simp_all
  from epoch_add [OF this]
  show "\<exists>dt. datetime_add \<lparr>year = 2000, month = 1, day = 1\<rparr> k = Inr dt" by blast
next
  fix s
  from assms obtain row s' where g: "generate_row R s = Inr (row, s')"
    by (rule generate_row_shape [of R s])
  with generated_row_plain(1) [OF assms g]
  show "\<exists>row s'. generate_row R s = Inr (row, s') \<and> length row = 6" by blast
qed

theorem generation_total_witness:
  "randint_contract max_source
   \<and> (1::int) \<le> 100 \<and> (\<exists>n s'. randint max_source 1 100 () = Inr (n, s') \<and> 1 \<le> n \<and> n \<le> 100)
   \<and> (0::int) \<le> 8000 \<and> (8000::int) \<le> 8000 \<and> timedelta_days 8000 = Inr 8000
   \<and> (\<exists>dt. datetime_add \<lparr>year = 2000, month = 1, day = 1\<rparr> 8000 = Inr dt)
   \<and> (\<exists>row s'. generate_row max_source () = Inr (row, s') \<and> length row = 6)"
  using generation_total [OF max_source_contract] max_source_contract by simp

text \<open>
  C10: under the contract of \<^verbatim>\<open>randint\<close>, the file a completed run leaves is a sequence
  of N lines, each free of CR and LF and each followed by the two characters CR LF; and
  the run does not depend on the line separator of the platform, since the file is
  opened with \<^verbatim>\<open>newline=''\<close>, which translates nothing.
\<close>

theorem crlf_terminated:
  assumes "randint_contract R" and "fst (run ev R p N st) = None"
  shows "(\<exists>ls. files (snd (run ev R p N st)) p = Some (concat (map (\<lambda>l. l @ [CR, LF]) ls))
            \<and> length ls = N \<and> (\<forall>l\<in>set ls. CR \<notin> set l \<and> LF \<notin> set l))
     \<and> (\<forall>sep. run (ev\<lparr>linesep := sep\<rparr>) R p N st = run ev R p N st)"
  using run_lines [OF assms] run_linesep [of _ ev R p N st] by blast

theorem crlf_terminated_witness:
  "randint_contract max_source
   \<and> fst (run quiet_env max_source ''test_large.csv'' 2 st0) = None
   \<and> (\<exists>ls. files (snd (run quiet_env max_source ''test_large.csv'' 2 st0)) ''test_large.csv''
              = Some (concat (map (\<lambda>l. l @ [CR, LF]) ls))
            \<and> length ls = 2 \<and> (\<forall>l\<in>set ls. CR \<notin> set l \<and> LF \<notin> set l))
   \<and> run (quiet_env\<lparr>linesep := [CR, LF]\<rparr>) max_source ''test_large.csv'' 2 st0
       = run quiet_env max_source ''test_large.csv'' 2 st0"
  using crlf_terminated [OF max_source_contract quiet_run_ok, of "''test_large.csv''" 2 st0]
    max_source_contract quiet_run_ok
  by simp

end
